theory Spec2Isabelle
  imports Complex_Main
begin

section \<open>Data model (index.ts, lines 18-76)\<close>

datatype TaskStatus = PENDING | IN_PROGRESS | COMPLETED | FAILED | CANCELLED

text \<open>
  The interface \<open>TaskState\<close>. Dates are their \<open>getTime()\<close> value, milliseconds as
  an integer; an optional field is an \<open>option\<close>. The fields \<open>id\<close> and \<open>context\<close>
  carry a suffix because the plain names are taken in Isabelle. A \<open>char\<close> of a
  \<open>string\<close> stands for one UTF-16 code unit of the JavaScript string.
\<close>

record TaskState =
  id_t :: string
  task :: string
  context_t :: "string option"
  status :: TaskStatus
  createdAt :: int
  updatedAt :: int
  startedAt :: "int option"
  completedAt :: "int option"
  result :: "string option"
  error :: "string option"
  progress :: "int option"

text \<open>\<open>LiaisonConfig\<close> (every field optional) and \<open>Required<LiaisonConfig>\<close>.\<close>

record LiaisonConfig =
  maxConcurrentTasks_opt :: "int option"
  taskTimeoutMs_opt :: "int option"
  maxTaskDescriptionLength_opt :: "int option"
  maxContextLength_opt :: "int option"

record RequiredLiaisonConfig =
  maxConcurrentTasks :: int
  taskTimeoutMs :: int
  maxTaskDescriptionLength :: int
  maxContextLength :: int

definition DEFAULT_CONFIG :: RequiredLiaisonConfig where
  "DEFAULT_CONFIG =
     \<lparr>maxConcurrentTasks = 10, taskTimeoutMs = 300000,
      maxTaskDescriptionLength = 5000, maxContextLength = 50000\<rparr>"

text \<open>
  The object spread \<open>{ ...DEFAULT_CONFIG, ...config }\<close> of the constructor: a key that
  \<open>config\<close> has wins, a key it lacks (\<open>None\<close>) keeps the default.
\<close>

definition spread_config :: "RequiredLiaisonConfig \<Rightarrow> LiaisonConfig \<Rightarrow> RequiredLiaisonConfig" where
  "spread_config d c =
     \<lparr>maxConcurrentTasks =
        (case maxConcurrentTasks_opt c of None \<Rightarrow> maxConcurrentTasks d | Some v \<Rightarrow> v),
      taskTimeoutMs =
        (case taskTimeoutMs_opt c of None \<Rightarrow> taskTimeoutMs d | Some v \<Rightarrow> v),
      maxTaskDescriptionLength =
        (case maxTaskDescriptionLength_opt c of None \<Rightarrow> maxTaskDescriptionLength d | Some v \<Rightarrow> v),
      maxContextLength =
        (case maxContextLength_opt c of None \<Rightarrow> maxContextLength d | Some v \<Rightarrow> v)\<rparr>"

section \<open>The JavaScript \<open>Map\<close> and the object store\<close>

text \<open>
  \<open>Map<string, TaskState>\<close> keeps its entries in insertion order: \<open>set\<close> on a key
  that is present replaces the value where it stands, on a new key it appends.
  The values are references to objects, here indices into the list of objects
  ever allocated, so that the handler, the map and a suspended \<open>processTask\<close>
  share one record the way the source shares one object.
\<close>

type_synonym ref = nat

fun Map_get :: "(string \<times> 'v) list \<Rightarrow> string \<Rightarrow> 'v option" where
  "Map_get [] k = None"
| "Map_get ((k', v) # m) k = (if k' = k then Some v else Map_get m k)"

fun Map_set :: "(string \<times> 'v) list \<Rightarrow> string \<Rightarrow> 'v \<Rightarrow> (string \<times> 'v) list" where
  "Map_set [] k v = [(k, v)]"
| "Map_set ((k', v') # m) k v = (if k' = k then (k, v) # m else (k', v') # Map_set m k v)"

fun Map_delete :: "(string \<times> 'v) list \<Rightarrow> string \<Rightarrow> (string \<times> 'v) list" where
  "Map_delete [] k = []"
| "Map_delete ((k', v') # m) k = (if k' = k then m else (k', v') # Map_delete m k)"

definition Map_values :: "(string \<times> 'v) list \<Rightarrow> 'v list" where
  "Map_values m = map snd m"

text \<open>
  A \<open>processTask\<close> call suspended at its \<open>await\<close>: the argument \<open>taskId\<close>, the local
  \<open>task\<close> (a reference) and the loop counter \<open>i\<close>.
\<close>

record suspended =
  s_taskId :: string
  s_task :: ref
  s_i :: nat

record LiaisonServer =
  objects :: "TaskState list"
  tasks :: "(string \<times> ref) list"
  config :: RequiredLiaisonConfig
  awaiting :: "suspended list"

definition new_LiaisonServer :: "LiaisonConfig \<Rightarrow> LiaisonServer" where
  "new_LiaisonServer c =
     \<lparr>objects = [], tasks = [], config = spread_config DEFAULT_CONFIG c, awaiting = []\<rparr>"

definition deref :: "LiaisonServer \<Rightarrow> ref \<Rightarrow> TaskState" where
  "deref s r = objects s ! r"

definition assign :: "ref \<Rightarrow> (TaskState \<Rightarrow> TaskState) \<Rightarrow> LiaisonServer \<Rightarrow> LiaisonServer" where
  "assign r f s = s\<lparr>objects := (objects s)[r := f (objects s ! r)]\<rparr>"

definition task_values :: "LiaisonServer \<Rightarrow> TaskState list" where
  "task_values s = map (deref s) (Map_values (tasks s))"

section \<open>Numbers and strings the handlers build\<close>

text \<open>The values of the string enum \<open>TaskStatus\<close>.\<close>

fun TaskStatus_value :: "TaskStatus \<Rightarrow> string" where
  "TaskStatus_value PENDING = ''pending''"
| "TaskStatus_value IN_PROGRESS = ''in_progress''"
| "TaskStatus_value COMPLETED = ''completed''"
| "TaskStatus_value FAILED = ''failed''"
| "TaskStatus_value CANCELLED = ''cancelled''"

text \<open>
  A number inside a template literal, for an integer (below \<open>10^21\<close> in magnitude
  JavaScript prints every digit).
\<close>

fun digits :: "nat \<Rightarrow> string" where
  "digits n = (if n < 10 then [''0123456789'' ! n]
               else digits (n div 10) @ [''0123456789'' ! (n mod 10)])"

declare digits.simps [simp del]

definition Number_toString :: "int \<Rightarrow> string" where
  "Number_toString n = (if n < 0 then ''-'' @ digits (nat (- n)) else digits (nat n))"

text \<open>
  \<open>Math.round\<close>: the nearest integer, a half rounded up. The argument is taken as
  the exact quotient; the doubles the source computes for \<open>((i + 1) / 5) * 100\<close> round
  to the same integers.
\<close>

definition Math_round :: "rat \<Rightarrow> int" where
  "Math_round x = \<lfloor>x + 1 / 2\<rfloor>"

text \<open>
  \<open>substring(0, n)\<close> and \<open>slice(0, n)\<close>. A negative end is 0 for \<open>substring\<close>; for
  \<open>slice\<close> it counts from the end of the array.
\<close>

definition substring0 :: "string \<Rightarrow> int \<Rightarrow> string" where
  "substring0 str n = take (nat n) str"

definition slice0 :: "'a list \<Rightarrow> int \<Rightarrow> 'a list" where
  "slice0 xs n = (if 0 \<le> n then take (nat n) xs else take (length xs - nat (- n)) xs)"

definition slice_from :: "'a list \<Rightarrow> nat \<Rightarrow> 'a list" where
  "slice_from xs n = drop n xs"

text \<open>
  \<open>sort((a, b) => b.updatedAt.getTime() - a.updatedAt.getTime())\<close>: the sort of
  an array is stable, and so is the insertion sort \<open>sort_key\<close>; descending order of
  \<open>updatedAt\<close> is ascending order of its negation.
\<close>

definition sort_updatedAt_desc :: "('a \<Rightarrow> TaskState) \<Rightarrow> 'a list \<Rightarrow> 'a list" where
  "sort_updatedAt_desc get xs = sort_key (\<lambda>x. - updatedAt (get x)) xs"

section \<open>Private helpers of the class (index.ts, lines 151-199)\<close>

definition is_active :: "TaskState \<Rightarrow> bool" where
  "is_active t = (status t = IN_PROGRESS \<or> status t = PENDING)"

definition getActiveTaskCount :: "LiaisonServer \<Rightarrow> nat" where
  "getActiveTaskCount s = length (filter is_active (task_values s))"

datatype js_error = Error (message: string)

definition validateTaskExists :: "LiaisonServer \<Rightarrow> string \<Rightarrow> js_error + ref" where
  "validateTaskExists s taskId =
     (case Map_get (tasks s) taskId of
        None \<Rightarrow> Inl (Error (''Task not found: '' @ taskId))
      | Some t \<Rightarrow> Inr t)"

definition is_terminal :: "TaskState \<Rightarrow> bool" where
  "is_terminal t = (status t = COMPLETED \<or> status t = FAILED \<or> status t = CANCELLED)"

definition completedTasks :: "LiaisonServer \<Rightarrow> (string \<times> ref) list" where
  "completedTasks s =
     sort_updatedAt_desc (\<lambda>e. deref s (snd e)) (filter (\<lambda>e. is_terminal (deref s (snd e))) (tasks s))"

definition cleanupOldTasks :: "LiaisonServer \<Rightarrow> LiaisonServer" where
  "cleanupOldTasks s =
     (if length (completedTasks s) > 100
      then let toRemove = slice_from (completedTasks s) 100
           in s\<lparr>tasks := foldl Map_delete (tasks s) (map fst toRemove)\<rparr>
      else s)"

section \<open>\<open>processTask\<close> (index.ts, lines 575-634)\<close>

text \<open>
  An \<open>async\<close> function runs synchronously up to its first \<open>await\<close>, and from one
  \<open>await\<close> to the next when its timer fires; nothing else runs in between. So the
  function is cut at \<open>await new Promise(resolve => setTimeout(resolve, 1000))\<close> into
  segments, each a function on the server. Every \<open>new Date()\<close> and \<open>Date.now()\<close> of
  a segment is an argument, in the order the source reads the clock.
\<close>

definition steps :: nat where
  "steps = 5"

text \<open>
  The top of a loop iteration \<open>i < steps\<close>: the check of the record the map holds
  under \<open>taskId\<close>, then the \<open>await\<close>, which leaves the call suspended.
\<close>

definition processTask_check :: "string \<Rightarrow> ref \<Rightarrow> nat \<Rightarrow> LiaisonServer \<Rightarrow> LiaisonServer" where
  "processTask_check taskId tsk i s =
     (case Map_get (tasks s) taskId of
        None \<Rightarrow> s
      | Some currentTask \<Rightarrow>
          if status (deref s currentTask) = CANCELLED then s
          else s\<lparr>awaiting := awaiting s @ [\<lparr>s_taskId = taskId, s_task = tsk, s_i = i\<rparr>]\<rparr>)"

text \<open>The \<open>catch\<close> block.\<close>

definition processTask_catch :: "ref \<Rightarrow> js_error \<Rightarrow> int \<Rightarrow> int \<Rightarrow> LiaisonServer \<Rightarrow> LiaisonServer" where
  "processTask_catch tsk e t_completed t_updated s =
     assign tsk (\<lambda>t. t\<lparr>status := FAILED, completedAt := Some t_completed,
                          updatedAt := t_updated, error := Some (message e)\<rparr>) s"

text \<open>
  After the loop: the timeout check and the completion. \<open>task.startedAt.getTime()\<close>
  on a missing \<open>startedAt\<close> is a TypeError, caught like the timeout (the first
  segment sets \<open>startedAt\<close>, and nothing unsets it).
\<close>

definition processTask_finish :: "ref \<Rightarrow> int \<Rightarrow> int \<Rightarrow> int \<Rightarrow> LiaisonServer \<Rightarrow> LiaisonServer" where
  "processTask_finish tsk now t_completed t_updated s =
     (case startedAt (deref s tsk) of
        None \<Rightarrow>
          processTask_catch tsk (Error ''Cannot read properties of undefined (reading 'getTime')'')
            t_completed t_updated s
      | Some started \<Rightarrow>
          let elapsed = now - started in
          if elapsed > taskTimeoutMs (config s)
          then processTask_catch tsk
                 (Error (''Task exceeded timeout of '' @ Number_toString (taskTimeoutMs (config s)) @ ''ms''))
                 t_completed t_updated s
          else assign tsk (\<lambda>t. t\<lparr>status := COMPLETED, completedAt := Some t_completed,
                                    updatedAt := t_updated, progress := Some 100,
                                    result := Some ''Task completed successfully (simulated)''\<rparr>) s)"

text \<open>
  The first segment: from the call to the first \<open>await\<close>. The loop starts at
  \<open>i = 0 < steps\<close>, so the segment ends in the check of iteration 0.
\<close>

definition processTask :: "string \<Rightarrow> int \<Rightarrow> int \<Rightarrow> LiaisonServer \<Rightarrow> LiaisonServer" where
  "processTask taskId t_started t_updated s =
     (case Map_get (tasks s) taskId of
        None \<Rightarrow> s
      | Some tsk \<Rightarrow>
          processTask_check taskId tsk 0
            (assign tsk (\<lambda>t. t\<lparr>status := IN_PROGRESS, startedAt := Some t_started,
                                  updatedAt := t_updated, progress := Some 0\<rparr>) s))"

text \<open>
  A later segment: the timer of the call suspended in iteration \<open>i\<close> has fired. The
  progress is written, \<open>i\<close> is incremented, and the loop either goes to its next
  check or is left for the timeout check.
\<close>

definition processTask_resume ::
    "suspended \<Rightarrow> int \<Rightarrow> int \<Rightarrow> int \<Rightarrow> int \<Rightarrow> LiaisonServer \<Rightarrow> LiaisonServer" where
  "processTask_resume k t_progress now t_completed t_updated s =
     (let s1 = assign (s_task k)
                 (\<lambda>t. t\<lparr>progress := Some (Math_round ((of_nat (s_i k + 1) / of_nat steps) * 100)),
                        updatedAt := t_progress\<rparr>) s
      in if s_i k + 1 < steps
         then processTask_check (s_taskId k) (s_task k) (s_i k + 1) s1
         else processTask_finish (s_task k) now t_completed t_updated s1)"

text \<open>
  The timer of the suspended call whose local \<open>task\<close> is the object \<open>r\<close> fires: the
  call leaves the suspended ones and runs its next segment. No such call, no effect.
\<close>

definition timer_fires :: "ref \<Rightarrow> int \<Rightarrow> int \<Rightarrow> int \<Rightarrow> int \<Rightarrow> LiaisonServer \<Rightarrow> LiaisonServer" where
  "timer_fires r t_progress now t_completed t_updated s =
     (case find (\<lambda>k. s_task k = r) (awaiting s) of
        None \<Rightarrow> s
      | Some k \<Rightarrow>
          processTask_resume k t_progress now t_completed t_updated
            (s\<lparr>awaiting := filter (\<lambda>k. s_task k \<noteq> r) (awaiting s)\<rparr>))"

section \<open>The tool handlers (index.ts, lines 204-569)\<close>

text \<open>
  A handler returns the object it passes to \<open>JSON.stringify\<close>, one constructor for
  each \<open>return\<close> of the source, with the keys as selectors; a date stays the integer
  that \<open>toISOString\<close> would print. No handler has an \<open>await\<close>: each runs as one step.
\<close>

subsection \<open>\<open>delegate\<close>\<close>

datatype delegate_result =
    Delegated (d_taskId: string) (d_status: TaskStatus) (d_task: string)
      (d_context: "string option") (d_createdAt: int) (d_message: string)
      (d_estimatedTimeoutMs: int)
  | MaxReached (d_error: string) (d_maxConcurrentTasks: int) (d_currentActiveTasks: nat)
      (d_hint: string)

text \<open>\<open>`task-${randomUUID()}`\<close>, the random part an argument.\<close>

definition generateTaskId :: "string \<Rightarrow> string" where
  "generateTaskId uuid = ''task-'' @ uuid"

text \<open>\<open>args.context || null\<close>: the empty string is falsy.\<close>

definition or_null :: "string option \<Rightarrow> string option" where
  "or_null c = (case c of None \<Rightarrow> None | Some x \<Rightarrow> if x = [] then None else Some x)"

text \<open>
  The handler past the admission check, up to the call of \<open>cleanupOldTasks\<close>: the
  new object, \<open>this.tasks.set\<close>, and the call of \<open>processTask\<close>, which runs its
  first segment before the handler goes on.
\<close>

definition admit ::
    "string \<Rightarrow> string option \<Rightarrow> string \<Rightarrow> int \<Rightarrow> int \<Rightarrow> int \<Rightarrow> LiaisonServer \<Rightarrow> LiaisonServer" where
  "admit args_task args_context taskId now t_started t_updated s =
     (let taskState = length (objects s);
          s1 = s\<lparr>objects := objects s @
                     [\<lparr>id_t = taskId, task = args_task, context_t = args_context,
                       status = PENDING, createdAt = now, updatedAt = now,
                       startedAt = None, completedAt = None, result = None, error = None,
                       progress = Some 0\<rparr>],
                  tasks := Map_set (tasks s) taskId taskState\<rparr>
      in processTask taskId t_started t_updated s1)"

definition delegate ::
    "string \<Rightarrow> string option \<Rightarrow> string \<Rightarrow> int \<Rightarrow> int \<Rightarrow> int \<Rightarrow> LiaisonServer
     \<Rightarrow> delegate_result \<times> LiaisonServer" where
  "delegate args_task args_context uuid now t_started t_updated s =
     (let activeCount = getActiveTaskCount s in
      if int activeCount \<ge> maxConcurrentTasks (config s)
      then (MaxReached ''Maximum concurrent tasks reached'' (maxConcurrentTasks (config s))
              activeCount ''Please wait for some tasks to complete before delegating new ones'', s)
      else
        let taskId = generateTaskId uuid;
            taskState = length (objects s);
            s2 = admit args_task args_context taskId now t_started t_updated s;
            s3 = cleanupOldTasks s2
        in (Delegated taskId (status (deref s3 taskState)) args_task (or_null args_context)
              (createdAt (deref s3 taskState))
              ''Task has been delegated and is pending execution''
              (taskTimeoutMs (config s3)), s3))"

subsection \<open>\<open>check_status\<close>\<close>

datatype status_result =
    StatusOf (c_taskId: string) (c_status: TaskStatus) (c_task: string) (c_createdAt: int)
      (c_updatedAt: int) (c_progress: "int option") (c_context: "string option")
      (c_startedAt: "int option") (c_completedAt: "int option") (c_durationMs: "int option")
      (c_result: "string option") (c_error: "string option") (c_message: string)
  | StatusFailed (c_failure: string) (c_failed_taskId: string) (c_failure_message: string)

text \<open>\<open>if (task.context)\<close> and its like: a string is truthy when it is not empty.\<close>

definition truthy :: "string option \<Rightarrow> string option" where
  "truthy c = (case c of None \<Rightarrow> None | Some x \<Rightarrow> if x = [] then None else Some x)"

fun status_message :: "TaskStatus \<Rightarrow> string" where
  "status_message PENDING = ''Task is pending execution''"
| "status_message IN_PROGRESS = ''Task is currently being processed''"
| "status_message COMPLETED = ''Task completed successfully''"
| "status_message FAILED = ''Task failed during execution''"
| "status_message CANCELLED = ''Task was cancelled''"

definition check_status :: "string \<Rightarrow> LiaisonServer \<Rightarrow> status_result" where
  "check_status args_taskId s =
     (case validateTaskExists s args_taskId of
        Inl e \<Rightarrow> StatusFailed ''Failed to check task status'' args_taskId (message e)
      | Inr r \<Rightarrow>
          let t = deref s r in
          StatusOf (id_t t) (status t) (task t) (createdAt t) (updatedAt t) (progress t)
            (truthy (context_t t)) (startedAt t) (completedAt t)
            (case completedAt t of None \<Rightarrow> None | Some c \<Rightarrow> Some (c - createdAt t))
            (truthy (result t)) (truthy (error t)) (status_message (status t)))"

subsection \<open>\<open>list_tasks\<close>\<close>

record list_entry =
  l_taskId :: string
  l_status :: TaskStatus
  l_task :: string
  l_createdAt :: int
  l_updatedAt :: int
  l_progress :: "int option"

datatype list_result =
    Listed (l_total: nat) (l_filtered: nat) (l_tasks: "list_entry list")
  | InvalidArguments

text \<open>
  The input schema of \<open>limit\<close>: \<open>z.number().int().positive().max(100).optional().default(10)\<close>.
  The handler only runs on arguments the schema accepts.
\<close>

definition parse_limit :: "int option \<Rightarrow> int option" where
  "parse_limit l =
     (case l of
        None \<Rightarrow> Some 10
      | Some n \<Rightarrow> if 0 < n \<and> n \<le> 100 then Some n else None)"

definition list_entry_of :: "TaskState \<Rightarrow> list_entry" where
  "list_entry_of t =
     \<lparr>l_taskId = id_t t, l_status = status t,
      l_task = substring0 (task t) 100 @ (if length (task t) > 100 then ''...'' else []),
      l_createdAt = createdAt t, l_updatedAt = updatedAt t, l_progress = progress t\<rparr>"

definition list_tasks_handler :: "TaskStatus option \<Rightarrow> int \<Rightarrow> LiaisonServer \<Rightarrow> list_result" where
  "list_tasks_handler args_status args_limit s =
     (let tasks0 = task_values s;
          tasks1 = (case args_status of
                      None \<Rightarrow> tasks0
                    | Some st \<Rightarrow> filter (\<lambda>t. status t = st) tasks0);
          tasks2 = sort_updatedAt_desc (\<lambda>t. t) tasks1;
          tasks3 = slice0 tasks2 args_limit;
          taskList = map list_entry_of tasks3
      in Listed (length (tasks s)) (length taskList) taskList)"

definition list_tasks :: "TaskStatus option \<Rightarrow> int option \<Rightarrow> LiaisonServer \<Rightarrow> list_result" where
  "list_tasks args_status limit s =
     (case parse_limit limit of
        None \<Rightarrow> InvalidArguments
      | Some args_limit \<Rightarrow> list_tasks_handler args_status args_limit s)"

subsection \<open>\<open>cancel_task\<close>\<close>

datatype cancel_result =
    Cancelled (x_taskId: string) (x_status: TaskStatus) (x_message: string) (x_updatedAt: int)
  | CannotCancel (x_error: string) (x_refused_taskId: string) (x_current: TaskStatus)
      (x_refusal: string)
  | CancelFailed (x_failure: string) (x_failed_taskId: string) (x_failure_message: string)

definition cancel_task :: "string \<Rightarrow> int \<Rightarrow> LiaisonServer \<Rightarrow> cancel_result \<times> LiaisonServer" where
  "cancel_task args_taskId now s =
     (case validateTaskExists s args_taskId of
        Inl e \<Rightarrow> (CancelFailed ''Failed to cancel task'' args_taskId (message e), s)
      | Inr r \<Rightarrow>
          if status (deref s r) \<noteq> PENDING \<and> status (deref s r) \<noteq> IN_PROGRESS
          then (CannotCancel ''Cannot cancel task'' args_taskId (status (deref s r))
                  (''Task is already '' @ TaskStatus_value (status (deref s r))
                     @ '' and cannot be cancelled''), s)
          else
            let s1 = assign r (\<lambda>t. t\<lparr>status := CANCELLED, updatedAt := now\<rparr>) s
            in (Cancelled (id_t (deref s1 r)) (status (deref s1 r)) ''Task has been cancelled''
                  (updatedAt (deref s1 r)), s1))"

section \<open>Shutdown and the test hooks\<close>

text \<open>
  \<open>handleShutdown\<close> up to its \<open>await\<close>: every task that is pending or in progress
  when the handler starts is cancelled, one after the other, each with its own
  reading of the clock (the \<open>n\<close>-th task reads \<open>clock n\<close>). The process exits once
  \<open>server.close()\<close> has resolved; until then timers may still fire, so a run is not
  cut at a shutdown.
\<close>

fun cancel_running :: "(nat \<Rightarrow> int) \<Rightarrow> nat \<Rightarrow> ref list \<Rightarrow> LiaisonServer \<Rightarrow> LiaisonServer" where
  "cancel_running clock n [] s = s"
| "cancel_running clock n (r # rs) s =
     cancel_running clock (Suc n) rs
       (assign r (\<lambda>t. t\<lparr>status := CANCELLED, updatedAt := clock n\<rparr>) s)"

definition handleShutdown :: "(nat \<Rightarrow> int) \<Rightarrow> LiaisonServer \<Rightarrow> LiaisonServer" where
  "handleShutdown clock s =
     (let runningTasks = filter (\<lambda>r. is_active (deref s r)) (Map_values (tasks s))
      in cancel_running clock 0 runningTasks s)"

definition clearTasks :: "LiaisonServer \<Rightarrow> LiaisonServer" where
  "clearTasks s = s\<lparr>tasks := []\<rparr>"

definition getTask :: "LiaisonServer \<Rightarrow> string \<Rightarrow> TaskState option" where
  "getTask s taskId = map_option (deref s) (Map_get (tasks s) taskId)"

section \<open>Runs of the server\<close>

text \<open>
  Everything that can happen to a server, one event for each piece of code that runs
  without interruption. A run is any sequence of events from a new server.
\<close>

datatype event =
    Delegate string "string option" string int int int
  | TimerFires ref int int int int
  | CancelTask string int
  | Shutdown "nat \<Rightarrow> int"
  | ClearTasks

fun step :: "LiaisonServer \<Rightarrow> event \<Rightarrow> LiaisonServer" where
  "step s (Delegate args_task args_context uuid now t_started t_updated) =
     snd (delegate args_task args_context uuid now t_started t_updated s)"
| "step s (TimerFires r t_progress now t_completed t_updated) =
     timer_fires r t_progress now t_completed t_updated s"
| "step s (CancelTask args_taskId now) = snd (cancel_task args_taskId now s)"
| "step s (Shutdown clock) = handleShutdown clock s"
| "step s ClearTasks = clearTasks s"

definition run :: "LiaisonConfig \<Rightarrow> event list \<Rightarrow> LiaisonServer" where
  "run c evs = foldl step (new_LiaisonServer c) evs"

text \<open>The configuration a server gets when the constructor is given no override.\<close>

definition no_overrides :: LiaisonConfig where
  "no_overrides =
     \<lparr>maxConcurrentTasks_opt = None, taskTimeoutMs_opt = None,
      maxTaskDescriptionLength_opt = None, maxContextLength_opt = None\<rparr>"

definition terminal_count :: "LiaisonServer \<Rightarrow> nat" where
  "terminal_count s = length (filter is_terminal (task_values s))"

section \<open>Well-formed servers\<close>

text \<open>
  What the constructor establishes and every step keeps: the map holds no dangling
  reference and no key twice, and a suspended call refers to an allocated object.
\<close>

definition wf :: "LiaisonServer \<Rightarrow> bool" where
  "wf s = ((\<forall>e \<in> set (tasks s). snd e < length (objects s)) \<and> distinct (map fst (tasks s))
           \<and> (\<forall>k \<in> set (awaiting s). s_task k < length (objects s)))"

section \<open>Example runs\<close>

text \<open>
  \<open>timers r t n\<close>: the timer of the call on object \<open>r\<close> fires \<open>n\<close> times, a second
  apart, the first a second after \<open>t\<close>.
\<close>

fun timers :: "ref \<Rightarrow> int \<Rightarrow> nat \<Rightarrow> event list" where
  "timers r t 0 = []"
| "timers r t (Suc n) =
     TimerFires r (t + 1000) (t + 1000) (t + 1001) (t + 1001) # timers r (t + 1000) n"

text \<open>
  Three delegations that run to completion one after the other, the second with a
  description of 101 characters, and a fourth that has just been accepted.
\<close>

definition four_jobs :: "event list" where
  "four_jobs =
     Delegate ''first'' None ''a'' 0 0 0 # timers 0 0 5 @
     Delegate (replicate 101 CHR ''x'') (Some ''ctx'') ''b'' 6000 6000 6000 # timers 1 6000 5 @
     Delegate ''third'' None ''c'' 12000 12000 12001 # timers 2 12000 5 @
     [Delegate ''fourth'' None ''d'' 20000 20000 20000]"

text \<open>A delegation of "ping" and the first four of its five steps.\<close>

definition ping_four_steps :: "event list" where
  "ping_four_steps = Delegate ''ping'' None ''7f9c'' 0 0 0 # timers 0 0 4"

text \<open>
  The same, with \<open>cancel_task\<close> arriving half a second after the fourth step, while
  the call is suspended in its fifth and last step.
\<close>

definition ping_cancelled_late :: "event list" where
  "ping_cancelled_late = ping_four_steps @ [CancelTask ''task-7f9c'' 4500]"

text \<open>A delegation of "ping" cancelled before the timer of its first step fires.\<close>

definition ping_cancelled_at_once :: "event list" where
  "ping_cancelled_at_once =
     [Delegate ''ping'' None ''7f9c'' 0 0 0, CancelTask ''task-7f9c'' 500]"

text \<open>
  \<open>delegations n\<close>: \<open>n\<close> delegations one after the other, the \<open>k\<close>-th with a
  generated id of \<open>k\<close> letters. \<open>cancelled_delegations n\<close>: the same, each task
  cancelled before the next is delegated.
\<close>

primrec delegations :: "nat \<Rightarrow> event list" where
  "delegations 0 = []"
| "delegations (Suc n) =
     delegations n @ [Delegate ''job'' None (replicate (Suc n) CHR ''u'') (int n) (int n) (int n)]"

primrec cancelled_delegations :: "nat \<Rightarrow> event list" where
  "cancelled_delegations 0 = []"
| "cancelled_delegations (Suc n) =
     cancelled_delegations n @
       [Delegate ''job'' None (replicate (Suc n) CHR ''u'') (int n) (int n) (int n),
        CancelTask (generateTaskId (replicate (Suc n) CHR ''u'')) (int n)]"

section \<open>Lemmas on the map and the object store\<close>

lemma Map_get_set: "Map_get (Map_set m k v) k' = (if k' = k then Some v else Map_get m k')"
  by (induction m) auto

lemma Map_get_Some_in: "Map_get m k = Some v \<Longrightarrow> (k, v) \<in> set m"
  by (induction m) (auto split: if_splits)

lemma Map_get_None_iff: "Map_get m k = None \<longleftrightarrow> k \<notin> fst ` set m"
  by (induction m) (auto split: if_splits)

lemma set_Map_set: "set (Map_set m k v) \<subseteq> insert (k, v) (set m)"
  by (induction m) (auto split: if_splits)

lemma map_fst_Map_set:
  "map fst (Map_set m k v) = (if k \<in> set (map fst m) then map fst m else map fst m @ [k])"
  by (induction m) force+

lemma keys_Map_set: "fst ` set (Map_set m k v) = insert k (fst ` set m)"
proof -
  have "set (map fst (Map_set m k v)) = insert k (set (map fst m))"
    unfolding map_fst_Map_set by auto
  then show ?thesis by simp
qed

lemma distinct_Map_set: "distinct (map fst m) \<Longrightarrow> distinct (map fst (Map_set m k v))"
  unfolding map_fst_Map_set by auto

lemma count_Map_set: "length (filter P (Map_set m k v)) \<le> Suc (length (filter P m))"
  by (induction m) auto

lemma Map_delete_filter: "distinct (map fst m) \<Longrightarrow> Map_delete m k = filter (\<lambda>e. fst e \<noteq> k) m"
proof (induction m)
  case Nil
  then show ?case by simp
next
  case (Cons e m)
  obtain k' v' where e: "e = (k', v')" by (cases e)
  have "k' \<notin> fst ` set m" using Cons.prems e by auto
  then have "filter (\<lambda>e. fst e \<noteq> k') m = m"
    by (intro filter_True) auto
  with Cons e show ?case by auto
qed

lemma foldl_Map_delete_filter:
  "distinct (map fst m) \<Longrightarrow> foldl Map_delete m ks = filter (\<lambda>e. fst e \<notin> set ks) m"
proof (induction ks arbitrary: m)
  case Nil
  then show ?case by simp
next
  case (Cons k ks)
  have d: "distinct (map fst (filter (\<lambda>e. fst e \<noteq> k) m))"
    using Cons.prems by (simp add: distinct_map_filter)
  show ?case
    using Cons.IH [OF d] Cons.prems by (simp add: Map_delete_filter conj_commute)
qed

lemma objects_assign: "objects (assign r f s) = (objects s)[r := f (objects s ! r)]"
  and tasks_assign: "tasks (assign r f s) = tasks s"
  and config_assign: "config (assign r f s) = config s"
  and awaiting_assign: "awaiting (assign r f s) = awaiting s"
  by (simp_all add: assign_def)

lemma deref_assign:
  "deref (assign r f s) r' = (if r' = r \<and> r < length (objects s) then f (deref s r) else deref s r')"
  by (auto simp: assign_def deref_def list_update_beyond)

lemma wf_assign: "wf s \<Longrightarrow> wf (assign r f s)"
  by (simp add: wf_def assign_def)

lemma wf_check: "wf s \<Longrightarrow> tsk < length (objects s) \<Longrightarrow> wf (processTask_check taskId tsk i s)"
  by (auto simp: wf_def processTask_check_def split: option.splits)

lemma wf_finish: "wf s \<Longrightarrow> wf (processTask_finish tsk now tc tu s)"
  by (auto simp: processTask_finish_def processTask_catch_def Let_def wf_assign split: option.splits)

lemma wf_resume: "wf s \<Longrightarrow> s_task k < length (objects s) \<Longrightarrow> wf (processTask_resume k tp now tc tu s)"
  by (auto simp: processTask_resume_def Let_def wf_assign wf_check wf_finish objects_assign)

lemma find_Some_in: "find P xs = Some x \<Longrightarrow> x \<in> set xs \<and> P x"
  by (induction xs) (auto split: if_splits)

lemma wf_timer: "wf s \<Longrightarrow> wf (timer_fires r tp now tc tu s)"
proof (cases "find (\<lambda>k. s_task k = r) (awaiting s)")
  case None
  then show "wf s \<Longrightarrow> ?thesis" by (simp add: timer_fires_def)
next
  case (Some k)
  assume w: "wf s"
  let ?s = "s\<lparr>awaiting := filter (\<lambda>k. s_task k \<noteq> r) (awaiting s)\<rparr>"
  have "wf ?s" using w by (auto simp: wf_def)
  moreover have "s_task k < length (objects ?s)"
    using find_Some_in [OF Some] w by (auto simp: wf_def)
  ultimately show ?thesis
    using Some by (simp add: timer_fires_def wf_resume)
qed

lemma wf_processTask: "wf s \<Longrightarrow> wf (processTask taskId t1 t2 s)"
proof (cases "Map_get (tasks s) taskId")
  case None
  then show "wf s \<Longrightarrow> ?thesis" by (simp add: processTask_def)
next
  case (Some tsk)
  assume w: "wf s"
  have "tsk < length (objects s)"
    using Map_get_Some_in [OF Some] w by (auto simp: wf_def)
  then show ?thesis
    using Some w by (simp add: processTask_def wf_check wf_assign objects_assign)
qed

lemma wf_cleanup: "wf s \<Longrightarrow> wf (cleanupOldTasks s)"
  by (auto simp: cleanupOldTasks_def wf_def Let_def foldl_Map_delete_filter distinct_map_filter)

lemma wf_admit: "wf s \<Longrightarrow> wf (admit a c taskId now t1 t2 s)"
proof -
  assume w: "wf s"
  have "wf (s\<lparr>objects := objects s @ [x], tasks := Map_set (tasks s) taskId (length (objects s))\<rparr>)" for x
    using w set_Map_set [of "tasks s" taskId "length (objects s)"]
    by (auto simp: wf_def distinct_Map_set less_Suc_eq)
  then show ?thesis by (simp add: admit_def Let_def wf_processTask)
qed

lemma wf_delegate: "wf s \<Longrightarrow> wf (snd (delegate a c uuid now t1 t2 s))"
  by (simp add: delegate_def Let_def wf_admit wf_cleanup)

lemma wf_cancel: "wf s \<Longrightarrow> wf (snd (cancel_task taskId now s))"
  by (auto simp: cancel_task_def Let_def wf_assign split: sum.splits)

lemma wf_cancel_running: "wf s \<Longrightarrow> wf (cancel_running clock n rs s)"
  by (induction rs arbitrary: n s) (auto simp: wf_assign)

lemma wf_shutdown: "wf s \<Longrightarrow> wf (handleShutdown clock s)"
  by (simp add: handleShutdown_def wf_cancel_running)

lemma wf_clear: "wf s \<Longrightarrow> wf (clearTasks s)"
  by (simp add: wf_def clearTasks_def)

lemma wf_step: "wf s \<Longrightarrow> wf (step s e)"
  by (cases e) (simp_all add: wf_delegate wf_timer wf_cancel wf_shutdown wf_clear)

lemma wf_foldl: "wf s \<Longrightarrow> wf (foldl step s evs)"
  by (induction evs arbitrary: s) (simp_all add: wf_step)

lemma wf_run: "wf (run c evs)"
  unfolding run_def by (rule wf_foldl) (simp add: wf_def new_LiaisonServer_def)

lemma objects_check: "objects (processTask_check taskId tsk i s) = objects s"
  and tasks_check: "tasks (processTask_check taskId tsk i s) = tasks s"
  and config_check: "config (processTask_check taskId tsk i s) = config s"
  by (simp_all add: processTask_check_def split: option.splits)

lemma deref_check: "deref (processTask_check taskId tsk i s) r = deref s r"
  by (simp add: deref_def objects_check)

lemma objects_cleanup: "objects (cleanupOldTasks s) = objects s"
  and config_cleanup: "config (cleanupOldTasks s) = config s"
  and awaiting_cleanup: "awaiting (cleanupOldTasks s) = awaiting s"
  by (simp_all add: cleanupOldTasks_def Let_def)

lemma deref_cleanup: "deref (cleanupOldTasks s) r = deref s r"
  by (simp add: deref_def objects_cleanup)

lemma deref_admit_new:
  "deref (admit a c taskId now t1 t2 s) (length (objects s)) =
     \<lparr>id_t = taskId, task = a, context_t = c, status = IN_PROGRESS, createdAt = now,
      updatedAt = t2, startedAt = Some t1, completedAt = None, result = None, error = None,
      progress = Some 0\<rparr>"
  by (simp add: admit_def Let_def processTask_def Map_get_set deref_check deref_assign)
     (simp add: deref_def)

lemma config_admit: "config (admit a c taskId now t1 t2 s) = config s"
  by (simp add: admit_def Let_def processTask_def config_check config_assign split: option.splits)

section \<open>The response of \<open>delegate\<close>\<close>

text \<open>
  Claim C3. The claim: the success response of \<open>delegate\<close> reports the new task's id,
  its creation timestamp and status PENDING. What the handler returns: the id and
  the creation timestamp, and \<open>taskState.status\<close> read after \<open>processTask\<close> has run
  its first segment on the same object, so the status of every accepted delegation
  is reported as IN_PROGRESS, beside the message "pending execution". The instance
  below is the delegation of "ping" with no context to a new server.
\<close>

theorem delegate_reports_in_progress:
  assumes "int (getActiveTaskCount s) < maxConcurrentTasks (config s)"
  shows "fst (delegate a c uuid now t1 t2 s) =
           Delegated (generateTaskId uuid) IN_PROGRESS a (or_null c) now
             ''Task has been delegated and is pending execution'' (taskTimeoutMs (config s))"
  using assms
  by (simp add: delegate_def Let_def deref_cleanup deref_admit_new config_cleanup config_admit)

theorem delegate_ping_witness:
  "int (getActiveTaskCount (new_LiaisonServer no_overrides))
     < maxConcurrentTasks (config (new_LiaisonServer no_overrides))
   \<and> fst (delegate ''ping'' None ''7f9c'' 0 0 0 (new_LiaisonServer no_overrides)) =
       Delegated ''task-7f9c'' IN_PROGRESS ''ping'' None 0
         ''Task has been delegated and is pending execution'' 300000"
proof -
  have h: "int (getActiveTaskCount (new_LiaisonServer no_overrides))
             < maxConcurrentTasks (config (new_LiaisonServer no_overrides))"
    by (simp add: getActiveTaskCount_def task_values_def Map_values_def new_LiaisonServer_def
        no_overrides_def spread_config_def DEFAULT_CONFIG_def)
  show ?thesis
    using h delegate_reports_in_progress [OF h, of "''ping''" None "''7f9c''" 0 0 0]
    by (simp add: generateTaskId_def or_null_def new_LiaisonServer_def
        no_overrides_def spread_config_def DEFAULT_CONFIG_def)
qed

section \<open>The example runs, evaluated\<close>

lemma four_jobs_state:
  "run no_overrides four_jobs =
   \<lparr>objects =
    [\<lparr>id_t = ''task-a'', task = ''first'', context_t = None,
        status = COMPLETED, createdAt = 0, updatedAt = 5001,
        startedAt = Some 0, completedAt = Some 5001,
        result = Some ''Task completed successfully (simulated)'',
        error = None, progress = Some 100\<rparr>,
     \<lparr>id_t = ''task-b'', task = replicate 101 CHR ''x'',
        context_t = Some ''ctx'', status = COMPLETED, createdAt = 6000,
        updatedAt = 11001, startedAt = Some 6000, completedAt = Some 11001,
        result = Some ''Task completed successfully (simulated)'',
        error = None, progress = Some 100\<rparr>,
     \<lparr>id_t = ''task-c'', task = ''third'', context_t = None,
        status = COMPLETED, createdAt = 12000, updatedAt = 17001,
        startedAt = Some 12000, completedAt = Some 17001,
        result = Some ''Task completed successfully (simulated)'',
        error = None, progress = Some 100\<rparr>,
     \<lparr>id_t = ''task-d'', task = ''fourth'', context_t = None,
        status = IN_PROGRESS, createdAt = 20000, updatedAt = 20000,
        startedAt = Some 20000, completedAt = None, result = None,
        error = None, progress = Some 0\<rparr>],
    tasks = [(''task-a'', 0), (''task-b'', 1), (''task-c'', 2), (''task-d'', 3)],
    config =
      \<lparr>maxConcurrentTasks = 10, taskTimeoutMs = 300000,
         maxTaskDescriptionLength = 5000, maxContextLength = 50000\<rparr>,
    awaiting = [\<lparr>s_taskId = ''task-d'', s_task = 3, s_i = 0\<rparr>]\<rparr>"
  by code_simp

lemma ping_four_steps_state:
  "run no_overrides ping_four_steps =
   \<lparr>objects =
    [\<lparr>id_t = ''task-7f9c'', task = ''ping'', context_t = None,
        status = IN_PROGRESS, createdAt = 0, updatedAt = 4000,
        startedAt = Some 0, completedAt = None, result = None, error = None,
        progress = Some 80\<rparr>],
    tasks = [(''task-7f9c'', 0)],
    config =
      \<lparr>maxConcurrentTasks = 10, taskTimeoutMs = 300000,
         maxTaskDescriptionLength = 5000, maxContextLength = 50000\<rparr>,
    awaiting = [\<lparr>s_taskId = ''task-7f9c'', s_task = 0, s_i = 4\<rparr>]\<rparr>"
  by code_simp

lemma run_snoc: "run c (evs @ [e]) = step (run c evs) e"
  by (simp add: run_def)

lemma sorted_updatedAt_desc:
  "sorted_wrt (\<lambda>a b. updatedAt (get a) \<ge> updatedAt (get b)) (sort_updatedAt_desc get xs)"
proof -
  have "sorted (map (\<lambda>x. - updatedAt (get x)) (sort_updatedAt_desc get xs))"
    unfolding sort_updatedAt_desc_def by (rule sorted_sort_key)
  then show ?thesis by (simp add: sorted_wrt_map)
qed

lemma set_sort_updatedAt_desc: "set (sort_updatedAt_desc get xs) = set xs"
  and length_sort_updatedAt_desc: "length (sort_updatedAt_desc get xs) = length xs"
  and distinct_sort_updatedAt_desc: "distinct (sort_updatedAt_desc get xs) = distinct xs"
  by (simp_all add: sort_updatedAt_desc_def)

lemma parse_limit_Some: "parse_limit limit = Some n \<Longrightarrow>
    0 < n \<and> n \<le> 100 \<and> n = (case limit of None \<Rightarrow> 10 | Some l \<Rightarrow> l)"
  by (auto simp: parse_limit_def split: option.splits if_splits)

lemma list_tasks_Listed:
  assumes "list_tasks args_status limit s = Listed n_total n_filtered entries"
  obtains n where "parse_limit limit = Some n"
    and "entries = map list_entry_of (take (nat n)
           (sort_updatedAt_desc (\<lambda>t. t)
             (case args_status of None \<Rightarrow> task_values s
              | Some st \<Rightarrow> filter (\<lambda>t. status t = st) (task_values s))))"
    and "n_filtered = length entries" and "n_total = length (tasks s)"
  using assms
  by (auto simp: list_tasks_def list_tasks_handler_def Let_def slice0_def
      dest: parse_limit_Some split: option.splits)

lemma four_jobs_listing:
  "list_tasks (Some COMPLETED) (Some 2) (run no_overrides four_jobs) =
     Listed 4 2
       [\<lparr>l_taskId = ''task-c'', l_status = COMPLETED, l_task = ''third'',
          l_createdAt = 12000, l_updatedAt = 17001, l_progress = Some 100\<rparr>,
        \<lparr>l_taskId = ''task-b'', l_status = COMPLETED,
          l_task = replicate 100 CHR ''x'' @ ''...'',
          l_createdAt = 6000, l_updatedAt = 11001, l_progress = Some 100\<rparr>]"
  unfolding four_jobs_state by code_simp

section \<open>Cancellation\<close>

text \<open>
  Claim C8. In every state a run of the server reaches, \<open>cancel_task\<close> on an
  identifier the map does not hold returns the failure with the message
  "Task not found" and leaves the server as it is; on a task that is completed,
  failed or cancelled it returns the refusal carrying that status and leaves the
  server as it is; on a pending or in-progress task it sets \<open>status\<close> to CANCELLED
  and \<open>updatedAt\<close> to the clock reading, changes no other field, no other object
  and nothing else of the server, and returns the id, the status and the
  \<open>updatedAt\<close> of the updated record.
\<close>

theorem cancel_task_contract:
  "(Map_get (tasks (run c evs)) taskId = None \<longrightarrow>
      cancel_task taskId now (run c evs) =
        (CancelFailed ''Failed to cancel task'' taskId (''Task not found: '' @ taskId), run c evs))
   \<and> (\<forall>r. Map_get (tasks (run c evs)) taskId = Some r \<and> is_terminal (deref (run c evs) r) \<longrightarrow>
      cancel_task taskId now (run c evs) =
        (CannotCancel ''Cannot cancel task'' taskId (status (deref (run c evs) r))
           (''Task is already '' @ TaskStatus_value (status (deref (run c evs) r))
              @ '' and cannot be cancelled''), run c evs))
   \<and> (\<forall>r. Map_get (tasks (run c evs)) taskId = Some r \<and> \<not> is_terminal (deref (run c evs) r) \<longrightarrow>
      cancel_task taskId now (run c evs) =
        (Cancelled (id_t (deref (run c evs) r)) CANCELLED ''Task has been cancelled'' now,
         (run c evs)\<lparr>objects := (objects (run c evs))
            [r := (deref (run c evs) r)\<lparr>status := CANCELLED, updatedAt := now\<rparr>]\<rparr>))"
proof -
  define s where "s = run c evs"
  have w: "wf s" unfolding s_def by (rule wf_run)
  have 1: "cancel_task taskId now s =
        (CancelFailed ''Failed to cancel task'' taskId (''Task not found: '' @ taskId), s)"
    if "Map_get (tasks s) taskId = None"
    using that by (simp add: cancel_task_def validateTaskExists_def)
  have 2: "cancel_task taskId now s =
        (CannotCancel ''Cannot cancel task'' taskId (status (deref s r))
           (''Task is already '' @ TaskStatus_value (status (deref s r))
              @ '' and cannot be cancelled''), s)"
    if "Map_get (tasks s) taskId = Some r" "is_terminal (deref s r)" for r
    using that by (auto simp: cancel_task_def validateTaskExists_def is_terminal_def)
  have 3: "cancel_task taskId now s =
        (Cancelled (id_t (deref s r)) CANCELLED ''Task has been cancelled'' now,
         s\<lparr>objects := (objects s)[r := (deref s r)\<lparr>status := CANCELLED, updatedAt := now\<rparr>]\<rparr>)"
    if g: "Map_get (tasks s) taskId = Some r" and n: "\<not> is_terminal (deref s r)" for r
  proof -
    have r: "r < length (objects s)"
      using Map_get_Some_in [OF g] w by (auto simp: wf_def)
    have a: "status (deref s r) = PENDING \<or> status (deref s r) = IN_PROGRESS"
      using n by (cases "status (deref s r)") (auto simp: is_terminal_def)
    show ?thesis
      using g a r
      by (auto simp: cancel_task_def validateTaskExists_def Let_def deref_assign)
         (simp_all add: assign_def deref_def)
  qed
  from 1 2 3 show ?thesis unfolding s_def by blast
qed


theorem cancel_task_contract_witness:
  "cancel_task ''task-zz'' 21000 (run no_overrides four_jobs) =
     (CancelFailed ''Failed to cancel task'' ''task-zz'' ''Task not found: task-zz'',
      run no_overrides four_jobs)
   \<and> cancel_task ''task-a'' 21000 (run no_overrides four_jobs) =
     (CannotCancel ''Cannot cancel task'' ''task-a'' COMPLETED
        ''Task is already completed and cannot be cancelled'', run no_overrides four_jobs)
   \<and> fst (cancel_task ''task-d'' 21000 (run no_overrides four_jobs)) =
       Cancelled ''task-d'' CANCELLED ''Task has been cancelled'' 21000
   \<and> getTask (snd (cancel_task ''task-d'' 21000 (run no_overrides four_jobs))) ''task-d'' =
       Some \<lparr>id_t = ''task-d'', task = ''fourth'', context_t = None,
        status = CANCELLED, createdAt = 20000, updatedAt = 21000,
        startedAt = Some 20000, completedAt = None, result = None,
        error = None, progress = Some 0\<rparr>"
  using cancel_task_contract [of no_overrides four_jobs "''task-zz''" 21000]
    cancel_task_contract [of no_overrides four_jobs "''task-a''" 21000]
    cancel_task_contract [of no_overrides four_jobs "''task-d''" 21000]
  by (simp add: four_jobs_state deref_def is_terminal_def getTask_def)

section \<open>Listing\<close>

text \<open>
  Claim C9. Whenever \<open>list_tasks\<close> answers (the limit is absent, read as 10, or an
  integer from 1 to 100), it returns at most \<open>limit\<close> entries, and so at most 100;
  with a status filter every entry has that status; and the entries are in
  descending order of \<open>updatedAt\<close>.
\<close>

theorem list_tasks_limited_filtered_sorted:
  assumes "list_tasks args_status limit s = Listed n_total n_filtered entries"
  shows "int (length entries) \<le> (case limit of None \<Rightarrow> 10 | Some l \<Rightarrow> l)
     \<and> length entries \<le> 100
     \<and> n_filtered = length entries
     \<and> (\<forall>st. args_status = Some st \<longrightarrow> (\<forall>e \<in> set entries. l_status e = st))
     \<and> sorted_wrt (\<lambda>a b. l_updatedAt a \<ge> l_updatedAt b) entries"
proof -
  let ?sel = "case args_status of None \<Rightarrow> task_values s
              | Some st \<Rightarrow> filter (\<lambda>t. status t = st) (task_values s)"
  obtain n where n: "parse_limit limit = Some n"
    and e: "entries = map list_entry_of (take (nat n) (sort_updatedAt_desc (\<lambda>t. t) ?sel))"
    and f: "n_filtered = length entries"
    using assms by (rule list_tasks_Listed)
  note lim = parse_limit_Some [OF n]
  have len: "length entries \<le> nat n" using e by simp
  have st: "l_status x = st" if a: "args_status = Some st" and b: "x \<in> set entries" for st x
  proof -
    obtain t where t: "t \<in> set (take (nat n) (sort_updatedAt_desc (\<lambda>t. t) ?sel))"
      and x: "x = list_entry_of t"
      using b e by auto
    have "t \<in> set ?sel"
      using t set_sort_updatedAt_desc [of "\<lambda>t. t" ?sel] by (auto dest: in_set_takeD)
    then show ?thesis using a x by (simp add: list_entry_of_def)
  qed
  have "sorted_wrt (\<lambda>a b. updatedAt a \<ge> updatedAt b) (take (nat n) (sort_updatedAt_desc (\<lambda>t. t) ?sel))"
    by (rule sorted_wrt_take) (rule sorted_updatedAt_desc)
  then have srt: "sorted_wrt (\<lambda>a b. l_updatedAt a \<ge> l_updatedAt b) entries"
    unfolding e by (simp add: sorted_wrt_map list_entry_of_def)
  from len lim f st srt show ?thesis by auto
qed

theorem list_tasks_limited_filtered_sorted_witness:
  "list_tasks (Some COMPLETED) (Some 2) (run no_overrides four_jobs) =
     Listed 4 2
       [\<lparr>l_taskId = ''task-c'', l_status = COMPLETED, l_task = ''third'',
          l_createdAt = 12000, l_updatedAt = 17001, l_progress = Some 100\<rparr>,
        \<lparr>l_taskId = ''task-b'', l_status = COMPLETED,
          l_task = replicate 100 CHR ''x'' @ ''...'',
          l_createdAt = 6000, l_updatedAt = 11001, l_progress = Some 100\<rparr>]
   \<and> length (l_tasks (list_tasks (Some COMPLETED) (Some 2) (run no_overrides four_jobs))) \<le> 2
   \<and> map l_status (l_tasks (list_tasks (Some COMPLETED) (Some 2) (run no_overrides four_jobs)))
       = [COMPLETED, COMPLETED]
   \<and> sorted_wrt (\<lambda>a b. l_updatedAt a \<ge> l_updatedAt b)
         (l_tasks (list_tasks (Some COMPLETED) (Some 2) (run no_overrides four_jobs)))"
  using list_tasks_limited_filtered_sorted [OF four_jobs_listing] four_jobs_listing
  by simp

text \<open>
  Claim C10. Every entry \<open>list_tasks\<close> returns comes from a record of the map, and
  its description is the first 100 characters of that record's description, followed
  by "..." exactly when the description has more than 100 characters;
  \<open>check_status\<close> returns the stored description as it is.
\<close>

theorem list_tasks_truncates_description:
  assumes "list_tasks args_status limit s = Listed n_total n_filtered entries"
  shows "(\<forall>e \<in> set entries. \<exists>t \<in> set (task_values s).
            l_taskId e = id_t t \<and>
            l_task e = take 100 (task t) @ (if length (task t) > 100 then ''...'' else []))
     \<and> (\<forall>r. Map_get (tasks s) taskId = Some r \<longrightarrow>
            c_task (check_status taskId s) = task (deref s r))"
proof -
  let ?sel = "case args_status of None \<Rightarrow> task_values s
              | Some st \<Rightarrow> filter (\<lambda>t. status t = st) (task_values s)"
  obtain n where e: "entries = map list_entry_of (take (nat n) (sort_updatedAt_desc (\<lambda>t. t) ?sel))"
    using assms by (rule list_tasks_Listed)
  have sub: "set ?sel \<subseteq> set (task_values s)" by (auto split: option.splits)
  have "\<exists>t \<in> set (task_values s). l_taskId x = id_t t \<and>
            l_task x = take 100 (task t) @ (if length (task t) > 100 then ''...'' else [])"
    if b: "x \<in> set entries" for x
  proof -
    obtain t where t: "t \<in> set (take (nat n) (sort_updatedAt_desc (\<lambda>t. t) ?sel))"
      and x: "x = list_entry_of t"
      using b e by auto
    have "t \<in> set (task_values s)"
      using t sub set_sort_updatedAt_desc [of "\<lambda>t. t" ?sel] by (auto dest: in_set_takeD)
    then show ?thesis using x by (auto simp: list_entry_of_def substring0_def)
  qed
  moreover have "c_task (check_status taskId s) = task (deref s r)"
    if "Map_get (tasks s) taskId = Some r" for r
    using that by (simp add: check_status_def validateTaskExists_def Let_def)
  ultimately show ?thesis by blast
qed

theorem list_tasks_truncates_description_witness:
  "map l_task (l_tasks (list_tasks (Some COMPLETED) (Some 2) (run no_overrides four_jobs))) =
     [''third'', replicate 100 CHR ''x'' @ ''...'']
   \<and> c_task (check_status ''task-b'' (run no_overrides four_jobs)) = replicate 101 CHR ''x''"
  using list_tasks_truncates_description [OF four_jobs_listing, of "''task-b''"] four_jobs_listing
  by (simp add: four_jobs_state deref_def)

section \<open>The last segment of \<open>processTask\<close>\<close>

lemma objects_finish_len: "length (objects (processTask_finish tsk now tc tu s)) = length (objects s)"
  by (simp add: processTask_finish_def processTask_catch_def Let_def objects_assign split: option.splits)

lemma Math_round_progress:
  "Math_round ((of_nat (i + 1) / of_nat steps) * 100) = 20 * (int i + 1)"
proof -
  have "(of_nat (i + 1) / of_nat steps) * 100 + 1 / 2 =
          (of_int (40 * (int i + 1) + 1) :: rat) / of_int 2"
    by (simp add: steps_def field_simps)
  then have "Math_round ((of_nat (i + 1) / of_nat steps) * 100) = (40 * (int i + 1) + 1) div 2"
    unfolding Math_round_def by (simp only: floor_divide_of_int_eq)
  then show ?thesis by simp
qed

lemma deref_awaiting_update: "deref (s\<lparr>awaiting := a\<rparr>) r = deref s r"
  by (simp add: deref_def)

lemma timer_fires_last:
  assumes k: "find (\<lambda>k. s_task k = r) (awaiting s) = Some k"
    and last: "s_i k + 1 = steps"
  shows "timer_fires r t_progress now t_completed t_updated s =
           processTask_finish r now t_completed t_updated
             (assign r (\<lambda>t. t\<lparr>progress := Some 100, updatedAt := t_progress\<rparr>)
                (s\<lparr>awaiting := filter (\<lambda>k. s_task k \<noteq> r) (awaiting s)\<rparr>))"
proof -
  have kr: "s_task k = r" using find_Some_in [OF k] by simp
  have p: "Math_round ((of_nat (s_i k + 1) / of_nat steps) * 100) = 100"
    unfolding Math_round_progress using last by (simp add: steps_def)
  show ?thesis
    unfolding timer_fires_def k option.case processTask_resume_def Let_def p kr
    using last by simp
qed

text \<open>
  Claim C5. In every state a run reaches, when the timer of a call suspended in its
  last step fires and the clock then reads more than \<open>taskTimeoutMs\<close> past the
  record's \<open>startedAt\<close>, the record becomes FAILED (so not COMPLETED), with the error
  "Task exceeded timeout of <taskTimeoutMs>ms", with \<open>completedAt\<close> and \<open>updatedAt\<close>
  set to the clock readings of the \<open>catch\<close> block, and with no other change than the
  progress of the last step; the map is as before.
\<close>

theorem timeout_forces_failed:
  assumes k: "find (\<lambda>k. s_task k = r) (awaiting (run c evs)) = Some k"
    and last: "s_i k + 1 = steps"
    and st: "startedAt (deref (run c evs) r) = Some started"
    and late: "now - started > taskTimeoutMs (config (run c evs))"
  shows "deref (timer_fires r t_progress now t_completed t_updated (run c evs)) r =
           (deref (run c evs) r)
             \<lparr>status := FAILED, completedAt := Some t_completed, updatedAt := t_updated,
              error := Some (''Task exceeded timeout of ''
                        @ Number_toString (taskTimeoutMs (config (run c evs))) @ ''ms''),
              progress := Some 100\<rparr>
       \<and> tasks (timer_fires r t_progress now t_completed t_updated (run c evs)) = tasks (run c evs)"
proof -
  define s where "s = run c evs"
  define s1 where "s1 = assign r (\<lambda>t. t\<lparr>progress := Some 100, updatedAt := t_progress\<rparr>)
                (s\<lparr>awaiting := filter (\<lambda>k. s_task k \<noteq> r) (awaiting s)\<rparr>)"
  have w: "wf s" unfolding s_def by (rule wf_run)
  have r: "r < length (objects s)"
    using find_Some_in [OF k] w by (auto simp: wf_def s_def)
  have d1: "deref s1 r = (deref s r)\<lparr>progress := Some 100, updatedAt := t_progress\<rparr>"
    using r by (simp add: s1_def deref_assign deref_awaiting_update)
  have r1: "r < length (objects s1)" and c1: "config s1 = config s" and t1: "tasks s1 = tasks s"
    using r by (simp_all add: s1_def objects_assign config_assign tasks_assign)
  have fin: "processTask_finish r now t_completed t_updated s1 =
      assign r (\<lambda>t. t\<lparr>status := FAILED, completedAt := Some t_completed,
                          updatedAt := t_updated,
                          error := Some (''Task exceeded timeout of ''
                            @ Number_toString (taskTimeoutMs (config s)) @ ''ms'')\<rparr>) s1"
    using st late by (simp add: processTask_finish_def processTask_catch_def d1 c1 s_def)
  have "timer_fires r t_progress now t_completed t_updated s =
          processTask_finish r now t_completed t_updated s1"
    unfolding s1_def using k last unfolding s_def by (rule timer_fires_last)
  then show ?thesis
    unfolding s_def [symmetric] fin using r1 by (simp add: deref_assign d1 tasks_assign t1)
qed

theorem timeout_forces_failed_witness:
  "deref (timer_fires 0 5000 300001 300002 300003 (run no_overrides ping_four_steps)) 0 =
     \<lparr>id_t = ''task-7f9c'', task = ''ping'', context_t = None, status = FAILED,
      createdAt = 0, updatedAt = 300003, startedAt = Some 0, completedAt = Some 300002,
      result = None, error = Some ''Task exceeded timeout of 300000ms'',
      progress = Some 100\<rparr>"
  using timeout_forces_failed [of 0 no_overrides ping_four_steps
      "\<lparr>s_taskId = ''task-7f9c'', s_task = 0, s_i = 4\<rparr>" 0 300001 5000 300002 300003]
  by (simp add: ping_four_steps_state deref_def steps_def Number_toString_def digits.simps)

section \<open>Cancellation against the running call\<close>

lemma ping_cancelled_late_state:
  "run no_overrides ping_cancelled_late =
   \<lparr>objects =
    [\<lparr>id_t = ''task-7f9c'', task = ''ping'', context_t = None,
        status = CANCELLED, createdAt = 0, updatedAt = 4500,
        startedAt = Some 0, completedAt = None, result = None, error = None,
        progress = Some 80\<rparr>],
    tasks = [(''task-7f9c'', 0)],
    config =
      \<lparr>maxConcurrentTasks = 10, taskTimeoutMs = 300000,
         maxTaskDescriptionLength = 5000, maxContextLength = 50000\<rparr>,
    awaiting = [\<lparr>s_taskId = ''task-7f9c'', s_task = 0, s_i = 4\<rparr>]\<rparr>"
  by code_simp

lemma ping_cancelled_at_once_state:
  "run no_overrides ping_cancelled_at_once =
   \<lparr>objects =
    [\<lparr>id_t = ''task-7f9c'', task = ''ping'', context_t = None,
        status = CANCELLED, createdAt = 0, updatedAt = 500,
        startedAt = Some 0, completedAt = None, result = None, error = None,
        progress = Some 0\<rparr>],
    tasks = [(''task-7f9c'', 0)],
    config =
      \<lparr>maxConcurrentTasks = 10, taskTimeoutMs = 300000,
         maxTaskDescriptionLength = 5000, maxContextLength = 50000\<rparr>,
    awaiting = [\<lparr>s_taskId = ''task-7f9c'', s_task = 0, s_i = 0\<rparr>]\<rparr>"
  by code_simp

lemma timer_fires_resume:
  assumes k: "find (\<lambda>k. s_task k = r) (awaiting s) = Some k"
    and more: "s_i k + 1 < steps"
  shows "timer_fires r t_progress now t_completed t_updated s =
           processTask_check (s_taskId k) r (s_i k + 1)
             (assign r (\<lambda>t. t\<lparr>progress := Some (20 * (int (s_i k) + 1)), updatedAt := t_progress\<rparr>)
                (s\<lparr>awaiting := filter (\<lambda>k. s_task k \<noteq> r) (awaiting s)\<rparr>))"
proof -
  have kr: "s_task k = r" using find_Some_in [OF k] by simp
  show ?thesis
    unfolding timer_fires_def k option.case processTask_resume_def Let_def Math_round_progress kr
    using more by (simp only: if_True)
qed

text \<open>
  Claim C1. The claim: a cancellation that lands after step \<open>k < N\<close> and before step
  \<open>N\<close> completes leaves the task CANCELLED. What the code does for \<open>k = N - 1\<close>: the
  loop checks the status before each \<open>await\<close> and not after the last one, so when
  the timer of the last step fires on a record that has been cancelled meanwhile,
  the status is overwritten, by FAILED when the timeout is exceeded and by COMPLETED
  otherwise. The instance is "ping": four steps, then \<open>cancel_task\<close>, then the
  fifth timer.
\<close>

theorem cancellation_in_last_step_is_overwritten:
  assumes k: "find (\<lambda>k. s_task k = r) (awaiting (run c evs)) = Some k"
    and last: "s_i k + 1 = steps"
    and cancelled: "status (deref (run c evs) r) = CANCELLED"
    and st: "startedAt (deref (run c evs) r) = Some started"
  shows "status (deref (timer_fires r t_progress now t_completed t_updated (run c evs)) r) =
           (if now - started > taskTimeoutMs (config (run c evs)) then FAILED else COMPLETED)"
proof -
  define s where "s = run c evs"
  define s1 where "s1 = assign r (\<lambda>t. t\<lparr>progress := Some 100, updatedAt := t_progress\<rparr>)
                (s\<lparr>awaiting := filter (\<lambda>k. s_task k \<noteq> r) (awaiting s)\<rparr>)"
  have w: "wf s" unfolding s_def by (rule wf_run)
  have r: "r < length (objects s)"
    using find_Some_in [OF k] w by (auto simp: wf_def s_def)
  have d1: "deref s1 r = (deref s r)\<lparr>progress := Some 100, updatedAt := t_progress\<rparr>"
    using r by (simp add: s1_def deref_assign deref_awaiting_update)
  have r1: "r < length (objects s1)" and c1: "config s1 = config s"
    using r by (simp_all add: s1_def objects_assign config_assign)
  have "timer_fires r t_progress now t_completed t_updated s =
          processTask_finish r now t_completed t_updated s1"
    unfolding s1_def using k last unfolding s_def by (rule timer_fires_last)
  then show ?thesis
    unfolding s_def [symmetric] using r1 st
    by (simp add: processTask_finish_def processTask_catch_def Let_def d1 c1 deref_assign s_def)
qed

theorem cancellation_in_last_step_witness:
  "map_option status (getTask (run no_overrides ping_cancelled_late) ''task-7f9c'') = Some CANCELLED
   \<and> map_option status
        (getTask (timer_fires 0 5000 5000 5001 5001 (run no_overrides ping_cancelled_late))
           ''task-7f9c'') = Some COMPLETED"
proof -
  have t: "tasks (timer_fires 0 5000 5000 5001 5001 (run no_overrides ping_cancelled_late))
             = [(''task-7f9c'', 0)]"
    unfolding ping_cancelled_late_state by code_simp
  show ?thesis
    using cancellation_in_last_step_is_overwritten [of 0 no_overrides ping_cancelled_late
      "\<lparr>s_taskId = ''task-7f9c'', s_task = 0, s_i = 4\<rparr>" 0 5000 5000 5001 5001]
    by (simp add: getTask_def t) (simp add: ping_cancelled_late_state deref_def steps_def)
qed

text \<open>
  Claim C2. The claim: once the status is COMPLETED, FAILED or CANCELLED no later
  operation changes it. The run below: the record of "ping" is CANCELLED after
  \<open>cancel_task\<close>, and FAILED, with \<open>completedAt\<close> and an error, after the timer of
  the last step has fired past the timeout.
\<close>

theorem terminal_status_changes:
  "getTask (run no_overrides ping_cancelled_late) ''task-7f9c'' =
     Some \<lparr>id_t = ''task-7f9c'', task = ''ping'', context_t = None,
        status = CANCELLED, createdAt = 0, updatedAt = 4500,
        startedAt = Some 0, completedAt = None, result = None, error = None,
        progress = Some 80\<rparr>
   \<and> getTask (run no_overrides (ping_cancelled_late @ [TimerFires 0 5000 400000 400001 400001]))
       ''task-7f9c'' =
     Some \<lparr>id_t = ''task-7f9c'', task = ''ping'', context_t = None,
        status = FAILED, createdAt = 0, updatedAt = 400001,
        startedAt = Some 0, completedAt = Some 400001, result = None,
        error = Some ''Task exceeded timeout of 300000ms'',
        progress = Some 100\<rparr>"
proof -
  have "timer_fires 0 5000 400000 400001 400001 (run no_overrides ping_cancelled_late) =
          processTask_finish 0 400000 400001 400001
            (assign 0 (\<lambda>t. t\<lparr>progress := Some 100, updatedAt := 5000\<rparr>)
               ((run no_overrides ping_cancelled_late)
                  \<lparr>awaiting := filter (\<lambda>k. s_task k \<noteq> 0)
                                 (awaiting (run no_overrides ping_cancelled_late))\<rparr>))"
    by (rule timer_fires_last [where k = "\<lparr>s_taskId = ''task-7f9c'', s_task = 0, s_i = 4\<rparr>"])
       (simp_all add: ping_cancelled_late_state steps_def)
  then show ?thesis
    unfolding run_snoc step.simps
    by (simp add: ping_cancelled_late_state getTask_def deref_def assign_def
        processTask_finish_def processTask_catch_def Number_toString_def digits.simps)
qed

text \<open>
  Claim C7. The claim: a task cancelled before any progress step completes ends
  CANCELLED with progress 0. What the code does: the progress of a step is written
  right after its \<open>await\<close>, before the next check of the status, so a call suspended
  in step \<open>i\<close> (not the last) whose record, still held by the map, has been cancelled
  writes progress \<open>20 * (i + 1)\<close> and \<open>updatedAt\<close> into the cancelled record and
  only then stops; the status stays CANCELLED. The instance is "ping" cancelled half
  a second after the delegation: the progress goes from 0 to 20.
\<close>

theorem progress_written_after_cancellation:
  assumes k: "find (\<lambda>k. s_task k = r) (awaiting (run c evs)) = Some k"
    and more: "s_i k + 1 < steps"
    and held: "Map_get (tasks (run c evs)) (s_taskId k) = Some r"
    and cancelled: "status (deref (run c evs) r) = CANCELLED"
  shows "deref (timer_fires r t_progress now t_completed t_updated (run c evs)) r =
           (deref (run c evs) r)\<lparr>progress := Some (20 * (int (s_i k) + 1)), updatedAt := t_progress\<rparr>
     \<and> find (\<lambda>k. s_task k = r)
          (awaiting (timer_fires r t_progress now t_completed t_updated (run c evs))) = None"
proof -
  define s where "s = run c evs"
  define s1 where "s1 = assign r (\<lambda>t. t\<lparr>progress := Some (20 * (int (s_i k) + 1)),
                                        updatedAt := t_progress\<rparr>)
                          (s\<lparr>awaiting := filter (\<lambda>k. s_task k \<noteq> r) (awaiting s)\<rparr>)"
  have w: "wf s" unfolding s_def by (rule wf_run)
  have r: "r < length (objects s)"
    using find_Some_in [OF k] w by (auto simp: wf_def s_def)
  have d1: "deref s1 r = (deref s r)\<lparr>progress := Some (20 * (int (s_i k) + 1)), updatedAt := t_progress\<rparr>"
    using r by (simp add: s1_def deref_assign deref_awaiting_update)
  have t1: "tasks s1 = tasks s" and a1: "awaiting s1 = filter (\<lambda>k. s_task k \<noteq> r) (awaiting s)"
    by (simp_all add: s1_def tasks_assign awaiting_assign)
  have "timer_fires r t_progress now t_completed t_updated s =
          processTask_check (s_taskId k) r (s_i k + 1) s1"
    unfolding s1_def using k more unfolding s_def by (rule timer_fires_resume)
  moreover have "processTask_check (s_taskId k) r (s_i k + 1) s1 = s1"
    using held cancelled by (simp add: processTask_check_def t1 d1 s_def)
  moreover have "find (\<lambda>k. s_task k = r) (filter (\<lambda>k. s_task k \<noteq> r) (awaiting s)) = None"
    by (simp add: find_None_iff)
  ultimately show ?thesis
    unfolding s_def [symmetric] by (simp add: d1 a1)
qed

theorem progress_written_after_cancellation_witness:
  "getTask (run no_overrides ping_cancelled_at_once) ''task-7f9c'' =
     Some \<lparr>id_t = ''task-7f9c'', task = ''ping'', context_t = None,
        status = CANCELLED, createdAt = 0, updatedAt = 500,
        startedAt = Some 0, completedAt = None, result = None, error = None,
        progress = Some 0\<rparr>
   \<and> deref (timer_fires 0 1000 1000 1001 1001 (run no_overrides ping_cancelled_at_once)) 0 =
     \<lparr>id_t = ''task-7f9c'', task = ''ping'', context_t = None,
        status = CANCELLED, createdAt = 0, updatedAt = 1000,
        startedAt = Some 0, completedAt = None, result = None, error = None,
        progress = Some 20\<rparr>"
  using progress_written_after_cancellation [of 0 no_overrides ping_cancelled_at_once
      "\<lparr>s_taskId = ''task-7f9c'', s_task = 0, s_i = 0\<rparr>" 1000 1000 1001 1001]
  by (simp add: ping_cancelled_at_once_state deref_def steps_def getTask_def)

section \<open>Admission\<close>

lemma getActiveTaskCount_entries:
  "getActiveTaskCount s = length (filter (\<lambda>e. is_active (deref s (snd e))) (tasks s))"
proof -
  have "task_values s = map (\<lambda>e. deref s (snd e)) (tasks s)"
    by (simp add: task_values_def Map_values_def)
  then show ?thesis by (simp add: getActiveTaskCount_def filter_map o_def)
qed

lemma count_mono:
  "(\<And>x. x \<in> set xs \<Longrightarrow> P x \<Longrightarrow> Q x) \<Longrightarrow> length (filter P xs) \<le> length (filter Q xs)"
  by (induction xs) auto

lemma active_assign_le:
  assumes "r < length (objects s) \<Longrightarrow> is_active (f (deref s r)) \<Longrightarrow> is_active (deref s r)"
  shows "getActiveTaskCount (assign r f s) \<le> getActiveTaskCount s"
  unfolding getActiveTaskCount_entries tasks_assign
  by (rule count_mono) (use assms in \<open>auto simp: deref_assign split: if_splits\<close>)

lemma active_check: "getActiveTaskCount (processTask_check taskId tsk i s) = getActiveTaskCount s"
  by (simp add: getActiveTaskCount_entries tasks_check deref_check)

lemma active_awaiting_update: "getActiveTaskCount (s\<lparr>awaiting := a\<rparr>) = getActiveTaskCount s"
  by (simp add: getActiveTaskCount_entries deref_awaiting_update)

lemma active_finish_le:
  "getActiveTaskCount (processTask_finish tsk now tc tu s) \<le> getActiveTaskCount s"
  by (auto simp: processTask_finish_def processTask_catch_def Let_def is_active_def
      intro!: active_assign_le split: option.splits)

lemma active_resume_le:
  "getActiveTaskCount (processTask_resume k tp now tc tu s) \<le> getActiveTaskCount s"
proof -
  have "getActiveTaskCount (assign (s_task k) (\<lambda>t. t\<lparr>progress := p, updatedAt := tp\<rparr>) s)
          \<le> getActiveTaskCount s" for p
    by (rule active_assign_le) (simp add: is_active_def)
  then show ?thesis
    unfolding processTask_resume_def Let_def
    by (auto simp: active_check intro: order_trans [OF active_finish_le])
qed

lemma active_timer_le:
  "getActiveTaskCount (timer_fires r tp now tc tu s) \<le> getActiveTaskCount s"
  unfolding timer_fires_def
  by (auto split: option.splits
      intro: order_trans [OF active_resume_le] simp: active_awaiting_update)

lemma active_cancel_le: "getActiveTaskCount (snd (cancel_task taskId now s)) \<le> getActiveTaskCount s"
  by (auto simp: cancel_task_def Let_def is_active_def intro!: active_assign_le split: sum.splits)

lemma active_cancel_running_le:
  "getActiveTaskCount (cancel_running clock n rs s) \<le> getActiveTaskCount s"
proof (induction rs arbitrary: n s)
  case Nil
  then show ?case by simp
next
  case (Cons r rs)
  have "getActiveTaskCount (assign r (\<lambda>t. t\<lparr>status := CANCELLED, updatedAt := clock n\<rparr>) s)
          \<le> getActiveTaskCount s"
    by (rule active_assign_le) (simp add: is_active_def)
  with Cons.IH [of "Suc n" "assign r (\<lambda>t. t\<lparr>status := CANCELLED, updatedAt := clock n\<rparr>) s"]
  show ?case by simp
qed

lemma active_shutdown_le: "getActiveTaskCount (handleShutdown clock s) \<le> getActiveTaskCount s"
  by (simp add: handleShutdown_def active_cancel_running_le)

lemma active_clear: "getActiveTaskCount (clearTasks s) = 0"
  by (simp add: clearTasks_def getActiveTaskCount_entries)

lemma active_cleanup_le:
  "wf s \<Longrightarrow> getActiveTaskCount (cleanupOldTasks s) \<le> getActiveTaskCount s"
  by (auto simp: cleanupOldTasks_def Let_def getActiveTaskCount_entries wf_def
      foldl_Map_delete_filter deref_def intro: count_mono)


lemma active_admit_le:
  assumes w: "wf s"
  shows "getActiveTaskCount (admit a c taskId now t1 t2 s) \<le> Suc (getActiveTaskCount s)"
proof -
  define n where "n = length (objects s)"
  define new where "new = \<lparr>id_t = taskId, task = a, context_t = c, status = PENDING,
      createdAt = now, updatedAt = now, startedAt = None, completedAt = None, result = None,
      error = None, progress = Some 0\<rparr>"
  define s1 where "s1 = s\<lparr>objects := objects s @ [new], tasks := Map_set (tasks s) taskId n\<rparr>"
  have old: "deref s1 (snd e) = deref s (snd e)" if "e \<in> set (tasks s)" for e
    using that w by (auto simp: s1_def deref_def wf_def nth_append)
  have "getActiveTaskCount s1 \<le> Suc (length (filter (\<lambda>e. is_active (deref s1 (snd e))) (tasks s)))"
    unfolding getActiveTaskCount_entries by (simp add: s1_def count_Map_set)
  also have "filter (\<lambda>e. is_active (deref s1 (snd e))) (tasks s) =
             filter (\<lambda>e. is_active (deref s (snd e))) (tasks s)"
    by (rule filter_cong) (simp_all add: old)
  finally have 1: "getActiveTaskCount s1 \<le> Suc (getActiveTaskCount s)"
    by (simp add: getActiveTaskCount_entries)
  have "is_active (deref s1 n)"
    by (simp add: s1_def deref_def n_def new_def is_active_def)
  then have 2: "getActiveTaskCount (assign n f s1) \<le> getActiveTaskCount s1" for f
    by (intro active_assign_le)
  have "admit a c taskId now t1 t2 s =
          processTask_check taskId n 0
            (assign n (\<lambda>t. t\<lparr>status := IN_PROGRESS, startedAt := Some t1,
                                updatedAt := t2, progress := Some 0\<rparr>) s1)"
    by (simp add: admit_def Let_def processTask_def Map_get_set s1_def n_def new_def)
  then show ?thesis
    using 1 2 by (simp add: active_check) (meson order_trans)
qed

lemma active_delegate_le:
  assumes w: "wf s" and cap: "int (getActiveTaskCount s) \<le> maxConcurrentTasks (config s)"
  shows "int (getActiveTaskCount (snd (delegate a c uuid now t1 t2 s))) \<le> maxConcurrentTasks (config s)"
proof (cases "int (getActiveTaskCount s) \<ge> maxConcurrentTasks (config s)")
  case True
  then show ?thesis using cap by (simp add: delegate_def Let_def)
next
  case False
  have "getActiveTaskCount (cleanupOldTasks (admit a c (generateTaskId uuid) now t1 t2 s))
          \<le> getActiveTaskCount (admit a c (generateTaskId uuid) now t1 t2 s)"
    by (rule active_cleanup_le) (rule wf_admit [OF w])
  also have "\<dots> \<le> Suc (getActiveTaskCount s)"
    by (rule active_admit_le [OF w])
  finally show ?thesis
    using False by (simp add: delegate_def Let_def)
qed

lemma config_step: "config (step s e) = config s"
proof (cases e)
  case (Delegate a c uuid now t1 t2)
  then show ?thesis by (simp add: delegate_def Let_def config_cleanup config_admit)
next
  case (TimerFires r tp now tc tu)
  then show ?thesis
    by (simp add: timer_fires_def processTask_resume_def processTask_finish_def
        processTask_catch_def Let_def config_check config_assign split: option.splits)
next
  case (CancelTask taskId now)
  then show ?thesis by (simp add: cancel_task_def Let_def config_assign split: sum.splits)
next
  case (Shutdown clock)
  have "config (cancel_running clock n rs s) = config s" for n rs s
    by (induction rs arbitrary: n s) (simp_all add: config_assign)
  with Shutdown show ?thesis by (simp add: handleShutdown_def)
next
  case ClearTasks
  then show ?thesis by (simp add: clearTasks_def)
qed

lemma config_run: "config (run c evs) = config (new_LiaisonServer c)"
  by (induction evs rule: rev_induct) (simp_all add: run_def config_step)

lemma active_step_le:
  assumes w: "wf s" and cap: "int (getActiveTaskCount s) \<le> maxConcurrentTasks (config s)"
  shows "int (getActiveTaskCount (step s e)) \<le> maxConcurrentTasks (config s)"
proof (cases e)
  case (Delegate a c uuid now t1 t2)
  then show ?thesis using active_delegate_le [OF w cap] by simp
next
  case (TimerFires r tp now tc tu)
  then show ?thesis using active_timer_le [of r tp now tc tu s] cap by simp
next
  case (CancelTask taskId now)
  then show ?thesis using active_cancel_le [of taskId now s] cap by simp
next
  case (Shutdown clock)
  then show ?thesis using active_shutdown_le [of clock s] cap by simp
next
  case ClearTasks
  then show ?thesis using cap by (simp add: active_clear)
qed

lemma active_run_le:
  assumes "0 \<le> maxConcurrentTasks (config (new_LiaisonServer c))"
  shows "int (getActiveTaskCount (run c evs)) \<le> maxConcurrentTasks (config (new_LiaisonServer c))"
proof (induction evs rule: rev_induct)
  case Nil
  then show ?case
    using assms by (simp add: run_def getActiveTaskCount_entries new_LiaisonServer_def)
next
  case (snoc e evs)
  have "int (getActiveTaskCount (step (run c evs) e)) \<le> maxConcurrentTasks (config (run c evs))"
    by (rule active_step_le) (simp_all add: wf_run config_run snoc.IH)
  then show ?case by (simp add: run_snoc config_run)
qed

lemma ten_delegations_active: "getActiveTaskCount (run no_overrides (delegations 10)) = 10"
  by code_simp

text \<open>
  Claim C4. On a server whose configured \<open>maxConcurrentTasks\<close> is not negative, after
  any sequence of delegations, timers, cancellations, shutdowns and clearings the
  number of tasks that are PENDING or IN_PROGRESS is at most \<open>maxConcurrentTasks\<close>;
  and a \<open>delegate\<close> that arrives when the number is at the maximum leaves the
  server as it is, so creates no record, and returns the rejection carrying the
  limit and the current number. The instance: with the default limit 10, the
  eleventh delegation is answered with limit 10 and current 10.
\<close>

theorem admission_within_cap:
  assumes "0 \<le> maxConcurrentTasks (config (new_LiaisonServer c))"
  shows "int (getActiveTaskCount (run c evs)) \<le> maxConcurrentTasks (config (new_LiaisonServer c))
     \<and> (int (getActiveTaskCount (run c evs)) = maxConcurrentTasks (config (new_LiaisonServer c)) \<longrightarrow>
          delegate a ctx uuid now t1 t2 (run c evs) =
            (MaxReached ''Maximum concurrent tasks reached''
               (maxConcurrentTasks (config (new_LiaisonServer c))) (getActiveTaskCount (run c evs))
               ''Please wait for some tasks to complete before delegating new ones'',
             run c evs))"
  using active_run_le [OF assms, of evs] by (simp add: delegate_def Let_def config_run)

theorem admission_within_cap_witness:
  "getActiveTaskCount (run no_overrides (delegations 10)) = 10
   \<and> delegate ''eleventh'' None ''v'' 10 10 10 (run no_overrides (delegations 10)) =
       (MaxReached ''Maximum concurrent tasks reached'' 10 10
          ''Please wait for some tasks to complete before delegating new ones'',
        run no_overrides (delegations 10))"
proof -
  have c: "maxConcurrentTasks (config (new_LiaisonServer no_overrides)) = 10"
    by (simp add: new_LiaisonServer_def no_overrides_def spread_config_def DEFAULT_CONFIG_def)
  then have h: "0 \<le> maxConcurrentTasks (config (new_LiaisonServer no_overrides))" by simp
  show ?thesis
    using admission_within_cap [OF h, of "delegations 10" "''eleventh''" None "''v''" 10 10 10]
    by (simp add: c ten_delegations_active)
qed

section \<open>Retention\<close>

lemma terminal_count_entries:
  "terminal_count s = length (filter (\<lambda>e. is_terminal (deref s (snd e))) (tasks s))"
proof -
  have "task_values s = map (\<lambda>e. deref s (snd e)) (tasks s)"
    by (simp add: task_values_def Map_values_def)
  then show ?thesis by (simp add: terminal_count_def filter_map o_def)
qed

lemma completedTasks_props:
  "set (completedTasks s) = {e \<in> set (tasks s). is_terminal (deref s (snd e))}"
  "length (completedTasks s) = terminal_count s"
  "distinct (tasks s) \<Longrightarrow> distinct (completedTasks s)"
  "sorted_wrt (\<lambda>a b. updatedAt (deref s (snd a)) \<ge> updatedAt (deref s (snd b))) (completedTasks s)"
  unfolding completedTasks_def
  by (simp_all add: set_sort_updatedAt_desc length_sort_updatedAt_desc
      distinct_sort_updatedAt_desc terminal_count_entries sorted_updatedAt_desc)

lemma key_in_dropped:
  assumes d: "distinct (map fst m)" and sub: "set xs \<subseteq> set m" and e: "e \<in> set m"
  shows "fst e \<in> set (map fst xs) \<longleftrightarrow> e \<in> set xs"
proof
  assume "fst e \<in> set (map fst xs)"
  then obtain x where x: "x \<in> set xs" "fst x = fst e" by auto
  then have "x \<in> set m" using sub by auto
  with d e x(2) have "x = e" by (metis (no_types) distinct_map inj_onD)
  with x show "e \<in> set xs" by simp
qed auto

lemma cleanup_evicts:
  assumes w: "wf s" and over: "length (completedTasks s) > 100"
  shows "tasks (cleanupOldTasks s) = filter (\<lambda>e. e \<notin> set (drop 100 (completedTasks s))) (tasks s)"
proof -
  have sub: "set (drop 100 (completedTasks s)) \<subseteq> set (tasks s)"
    using set_drop_subset [of 100 "completedTasks s"] completedTasks_props(1) [of s] by blast
  have d: "distinct (map fst (tasks s))" using w by (simp add: wf_def)
  have "tasks (cleanupOldTasks s) =
          filter (\<lambda>e. fst e \<notin> set (map fst (drop 100 (completedTasks s)))) (tasks s)"
    using over d by (simp add: cleanupOldTasks_def Let_def slice_from_def foldl_Map_delete_filter)
  also have "\<dots> = filter (\<lambda>e. e \<notin> set (drop 100 (completedTasks s))) (tasks s)"
    by (rule filter_cong) (simp_all only: key_in_dropped [OF d sub])
  finally show ?thesis .
qed

lemma cleanup_keeps_newest:
  assumes w: "wf s" and over: "length (completedTasks s) > 100"
  shows "filter (\<lambda>e. is_terminal (deref s (snd e))) (tasks (cleanupOldTasks s)) =
           filter (\<lambda>e. e \<in> set (take 100 (completedTasks s))) (tasks s)"
proof -
  have dt: "distinct (tasks s)" using w by (simp add: wf_def distinct_map)
  have dc: "set (take 100 (completedTasks s)) \<inter> set (drop 100 (completedTasks s)) = {}"
    using completedTasks_props(3) [OF dt] by (metis append_take_drop_id distinct_append)
  have un: "set (take 100 (completedTasks s)) \<union> set (drop 100 (completedTasks s))
              = {e \<in> set (tasks s). is_terminal (deref s (snd e))}"
    using completedTasks_props(1) [of s] set_append [of "take 100 (completedTasks s)" "drop 100 (completedTasks s)"]
    by simp
  have "filter (\<lambda>e. is_terminal (deref s (snd e))) (tasks (cleanupOldTasks s)) =
          filter (\<lambda>e. is_terminal (deref s (snd e)) \<and> e \<notin> set (drop 100 (completedTasks s))) (tasks s)"
    by (simp add: cleanup_evicts [OF w over] conj_commute)
  also have "\<dots> = filter (\<lambda>e. e \<in> set (take 100 (completedTasks s))) (tasks s)"
  proof (rule filter_cong)
    fix e assume "e \<in> set (tasks s)"
    then show "(is_terminal (deref s (snd e)) \<and> e \<notin> set (drop 100 (completedTasks s)))
                 = (e \<in> set (take 100 (completedTasks s)))"
      using un dc by auto
  qed simp
  finally show ?thesis .
qed

lemma length_filter_mem:
  assumes "distinct m" "distinct xs" "set xs \<subseteq> set m"
  shows "length (filter (\<lambda>e. e \<in> set xs) m) = length xs"
proof -
  have "set (filter (\<lambda>e. e \<in> set xs) m) = set xs" using assms(3) by auto
  moreover have "distinct (filter (\<lambda>e. e \<in> set xs) m)" using assms(1) by simp
  ultimately show ?thesis using assms(2) by (metis distinct_card)
qed

lemma terminal_count_cleanup:
  assumes w: "wf s"
  shows "terminal_count (cleanupOldTasks s) = min 100 (terminal_count s)"
proof (cases "length (completedTasks s) > 100")
  case False
  then show ?thesis
    using completedTasks_props(2) [of s] by (simp add: cleanupOldTasks_def)
next
  case True
  have dt: "distinct (tasks s)" using w by (simp add: wf_def distinct_map)
  have sub: "set (take 100 (completedTasks s)) \<subseteq> set (tasks s)"
    using set_take_subset [of 100 "completedTasks s"] completedTasks_props(1) [of s] by blast
  have "terminal_count (cleanupOldTasks s) =
          length (filter (\<lambda>e. e \<in> set (take 100 (completedTasks s))) (tasks s))"
    by (simp add: terminal_count_entries deref_cleanup cleanup_keeps_newest [OF w True])
  also have "\<dots> = length (take 100 (completedTasks s))"
    by (rule length_filter_mem [OF dt _ sub]) (simp add: completedTasks_props(3) [OF dt])
  finally show ?thesis
    using True completedTasks_props(2) [of s] by simp
qed

lemma cleanup_retention:
  assumes w: "wf s"
  shows "terminal_count (cleanupOldTasks s) = min 100 (terminal_count s)"
    and "objects (cleanupOldTasks s) = objects s"
    and "set (tasks (cleanupOldTasks s)) \<subseteq> set (tasks s)"
    and "\<And>e. e \<in> set (tasks s) \<Longrightarrow> \<not> is_terminal (deref s (snd e)) \<Longrightarrow> e \<in> set (tasks (cleanupOldTasks s))"
    and "\<And>e e'. e \<in> set (tasks s) \<Longrightarrow> e \<notin> set (tasks (cleanupOldTasks s)) \<Longrightarrow>
           e' \<in> set (tasks (cleanupOldTasks s)) \<Longrightarrow> is_terminal (deref s (snd e')) \<Longrightarrow>
           updatedAt (deref s (snd e)) \<le> updatedAt (deref s (snd e'))"
proof -
  show "terminal_count (cleanupOldTasks s) = min 100 (terminal_count s)"
    by (rule terminal_count_cleanup [OF w])
  show "objects (cleanupOldTasks s) = objects s" by (rule objects_cleanup)
  show 3: "set (tasks (cleanupOldTasks s)) \<subseteq> set (tasks s)"
  proof (cases "length (completedTasks s) > 100")
    case True
    then show ?thesis by (simp add: cleanup_evicts [OF w])
  next
    case False
    then show ?thesis by (simp add: cleanupOldTasks_def)
  qed
  show "e \<in> set (tasks (cleanupOldTasks s))"
    if "e \<in> set (tasks s)" "\<not> is_terminal (deref s (snd e))" for e
  proof (cases "length (completedTasks s) > 100")
    case True
    have "e \<notin> set (drop 100 (completedTasks s))"
      using that(2) completedTasks_props(1) [of s] by (auto dest: in_set_dropD)
    then show ?thesis using that(1) by (simp add: cleanup_evicts [OF w True])
  next
    case False
    then show ?thesis using that(1) by (simp add: cleanupOldTasks_def)
  qed
  show "updatedAt (deref s (snd e)) \<le> updatedAt (deref s (snd e'))"
    if e: "e \<in> set (tasks s)" "e \<notin> set (tasks (cleanupOldTasks s))"
      and e': "e' \<in> set (tasks (cleanupOldTasks s))" "is_terminal (deref s (snd e'))" for e e'
  proof (cases "length (completedTasks s) > 100")
    case False
    then show ?thesis using e by (simp add: cleanupOldTasks_def)
  next
    case True
    have 1: "e \<in> set (drop 100 (completedTasks s))"
      using e by (simp add: cleanup_evicts [OF w True])
    have "e' \<in> set (filter (\<lambda>e. is_terminal (deref s (snd e))) (tasks (cleanupOldTasks s)))"
      using e' by simp
    then have 2: "e' \<in> set (take 100 (completedTasks s))"
      unfolding cleanup_keeps_newest [OF w True] by simp
    have "sorted_wrt (\<lambda>a b. updatedAt (deref s (snd a)) \<ge> updatedAt (deref s (snd b)))
            (take 100 (completedTasks s) @ drop 100 (completedTasks s))"
      using completedTasks_props(4) [of s] by simp
    then show ?thesis
      unfolding sorted_wrt_append using 1 2 by blast
  qed
qed

subsection \<open>A hundred and one delegations, each cancelled\<close>

lemma Map_set_fresh: "k \<notin> fst ` set m \<Longrightarrow> Map_set m k v = m @ [(k, v)]"
  by (induction m) auto

lemma Map_get_append_fresh: "k \<notin> fst ` set m \<Longrightarrow> Map_get (m @ [(k, v)]) k = Some v"
  by (induction m) auto

lemma admit_fresh:
  assumes "taskId \<notin> fst ` set (tasks s)"
  shows "admit a c taskId now t1 t2 s =
           s\<lparr>objects := objects s @
                [\<lparr>id_t = taskId, task = a, context_t = c, status = IN_PROGRESS, createdAt = now,
                  updatedAt = t2, startedAt = Some t1, completedAt = None, result = None,
                  error = None, progress = Some 0\<rparr>],
              tasks := tasks s @ [(taskId, length (objects s))],
              awaiting := awaiting s @
                [\<lparr>s_taskId = taskId, s_task = length (objects s), s_i = 0\<rparr>]\<rparr>"
  using assms
  by (simp add: admit_def Let_def Map_set_fresh processTask_def Map_get_append_fresh
      processTask_check_def assign_def deref_def)

lemma terminal_not_active: "is_terminal t \<Longrightarrow> \<not> is_active t"
  by (auto simp: is_terminal_def is_active_def)

lemma cancelled_cycle:
  assumes w: "wf s"
    and allt: "\<forall>e \<in> set (tasks s). is_terminal (deref s (snd e))"
    and few: "length (tasks s) \<le> 100"
    and fresh: "generateTaskId uuid \<notin> fst ` set (tasks s)"
    and cap: "0 < maxConcurrentTasks (config s)"
  shows "tasks (step (step s (Delegate a c uuid now t1 t2)) (CancelTask (generateTaskId uuid) now'))
           = tasks s @ [(generateTaskId uuid, length (objects s))]
       \<and> (\<forall>e \<in> set (tasks s @ [(generateTaskId uuid, length (objects s))]).
            is_terminal (deref (step (step s (Delegate a c uuid now t1 t2))
                                  (CancelTask (generateTaskId uuid) now')) (snd e)))"
proof -
  define k where "k = generateTaskId uuid"
  define n where "n = length (objects s)"
  define s2 where "s2 = admit a c k now t1 t2 s"
  have s2: "s2 = s\<lparr>objects := objects s @
                [\<lparr>id_t = k, task = a, context_t = c, status = IN_PROGRESS, createdAt = now,
                  updatedAt = t2, startedAt = Some t1, completedAt = None, result = None,
                  error = None, progress = Some 0\<rparr>],
              tasks := tasks s @ [(k, n)],
              awaiting := awaiting s @ [\<lparr>s_taskId = k, s_task = n, s_i = 0\<rparr>]\<rparr>"
    unfolding s2_def n_def using fresh unfolding k_def [symmetric] by (rule admit_fresh)
  have old: "deref s2 (snd e) = deref s (snd e)" if "e \<in> set (tasks s)" for e
    using that w by (auto simp: s2 deref_def wf_def nth_append)
  have new: "deref s2 n = \<lparr>id_t = k, task = a, context_t = c, status = IN_PROGRESS, createdAt = now,
                  updatedAt = t2, startedAt = Some t1, completedAt = None, result = None,
                  error = None, progress = Some 0\<rparr>"
    by (simp add: s2 deref_def n_def)
  have act0: "getActiveTaskCount s = 0"
    using allt by (simp add: getActiveTaskCount_entries terminal_not_active)
  have "terminal_count s2 \<le> length (tasks s)"
    unfolding terminal_count_entries
    by (simp add: s2 [THEN arg_cong, of tasks] new is_terminal_def)
  then have "\<not> length (completedTasks s2) > 100"
    using few completedTasks_props(2) [of s2] by simp
  then have clean: "cleanupOldTasks s2 = s2" by (simp add: cleanupOldTasks_def)
  have d: "step s (Delegate a c uuid now t1 t2) = s2"
    using act0 cap clean [unfolded s2_def k_def]
    by (simp add: delegate_def Let_def s2_def k_def)
  have g: "Map_get (tasks s2) k = Some n"
    using fresh by (simp add: s2 Map_get_append_fresh k_def)
  define s3 where "s3 = assign n (\<lambda>t. t\<lparr>status := CANCELLED, updatedAt := now'\<rparr>) s2"
  have c: "step s2 (CancelTask k now') = s3"
    using g new by (simp add: cancel_task_def validateTaskExists_def Let_def s3_def)
  have n2: "n < length (objects s2)" by (simp add: s2 n_def)
  have t3: "tasks s3 = tasks s @ [(k, n)]" by (simp add: s3_def tasks_assign s2)
  have "is_terminal (deref s3 (snd e))" if "e \<in> set (tasks s @ [(k, n)])" for e
  proof (cases "e \<in> set (tasks s)")
    case True
    then have "snd e < n" using w by (auto simp: wf_def n_def)
    then have "deref s3 (snd e) = deref s (snd e)"
      using old [OF True] by (simp add: s3_def deref_assign)
    then show ?thesis using allt True by simp
  next
    case False
    then have "e = (k, n)" using that by simp
    then show ?thesis using n2 by (simp add: s3_def deref_assign is_terminal_def)
  qed
  then show ?thesis
    unfolding d k_def [symmetric] c n_def [symmetric] t3 by blast
qed

lemma config_no_overrides:
  "config (new_LiaisonServer no_overrides) =
     \<lparr>maxConcurrentTasks = 10, taskTimeoutMs = 300000,
      maxTaskDescriptionLength = 5000, maxContextLength = 50000\<rparr>"
  by (simp add: new_LiaisonServer_def no_overrides_def spread_config_def DEFAULT_CONFIG_def)

lemma run_append: "run c (evs @ evs') = foldl step (run c evs) evs'"
  by (simp add: run_def)

lemma cancelled_delegations_state:
  "n \<le> 101 \<Longrightarrow>
     map fst (tasks (run no_overrides (cancelled_delegations n))) =
       map (\<lambda>k. generateTaskId (replicate (Suc k) CHR ''u'')) [0..<n]
     \<and> (\<forall>e \<in> set (tasks (run no_overrides (cancelled_delegations n))).
           is_terminal (deref (run no_overrides (cancelled_delegations n)) (snd e)))"
proof (induction n)
  case 0
  then show ?case by (simp add: run_def new_LiaisonServer_def)
next
  case (Suc n)
  define s where "s = run no_overrides (cancelled_delegations n)"
  have ih: "map fst (tasks s) = map (\<lambda>k. generateTaskId (replicate (Suc k) CHR ''u'')) [0..<n]"
    and allt: "\<forall>e \<in> set (tasks s). is_terminal (deref s (snd e))"
    using Suc by (simp_all add: s_def)
  have len: "length (tasks s) = n"
    using ih [THEN arg_cong, of length] by simp
  have "fst ` set (tasks s) = set (map (\<lambda>k. generateTaskId (replicate (Suc k) CHR ''u'')) [0..<n])"
    using ih [THEN arg_cong, of set] by simp
  then have fresh: "generateTaskId (replicate (Suc n) CHR ''u'') \<notin> fst ` set (tasks s)"
    by (auto simp: generateTaskId_def)
  have cap: "0 < maxConcurrentTasks (config s)"
    by (simp add: s_def config_run config_no_overrides)
  have few: "length (tasks s) \<le> 100" using len Suc.prems by simp
  have w: "wf s" unfolding s_def by (rule wf_run)
  note cyc = cancelled_cycle [OF w allt few fresh cap, of "''job''" None "int n" "int n" "int n" "int n"]
  have r: "run no_overrides (cancelled_delegations (Suc n)) =
             step (step s (Delegate ''job'' None (replicate (Suc n) CHR ''u'') (int n) (int n) (int n)))
               (CancelTask (generateTaskId (replicate (Suc n) CHR ''u'')) (int n))"
    by (simp add: run_append s_def)
  show ?case
    unfolding r using cyc ih by simp
qed

lemma cancelled_delegations_terminal:
  "terminal_count (run no_overrides (cancelled_delegations 101)) = 101"
proof -
  define s where "s = run no_overrides (cancelled_delegations 101)"
  have 1: "map fst (tasks s) = map (\<lambda>k. generateTaskId (replicate (Suc k) CHR ''u'')) [0..<101]"
    and 2: "\<forall>e \<in> set (tasks s). is_terminal (deref s (snd e))"
    using cancelled_delegations_state [of 101] by (simp_all add: s_def)
  have "length (tasks s) = 101" using 1 [THEN arg_cong, of length] by simp
  then show ?thesis
    using 2 unfolding s_def [symmetric] terminal_count_entries by simp
qed

lemma cancelled_delegations_active:
  "getActiveTaskCount (run no_overrides (cancelled_delegations 101)) = 0"
  using cancelled_delegations_state [of 101]
  by (simp add: getActiveTaskCount_entries terminal_not_active)

lemma cancelled_delegations_fresh:
  "generateTaskId ''v'' \<notin> fst ` set (tasks (run no_overrides (cancelled_delegations 101)))"
proof -
  have "fst ` set (tasks (run no_overrides (cancelled_delegations 101))) =
          set (map (\<lambda>k. generateTaskId (replicate (Suc k) CHR ''u'')) [0..<101])"
    using cancelled_delegations_state [of 101, THEN conjunct1, THEN arg_cong, of set] by simp
  then show ?thesis by (auto simp: generateTaskId_def)
qed

lemma terminal_count_admit_fresh:
  assumes w: "wf s" and fresh: "taskId \<notin> fst ` set (tasks s)"
  shows "terminal_count (admit a c taskId now t1 t2 s) = terminal_count s"
proof -
  have "filter (\<lambda>e. is_terminal (deref (admit a c taskId now t1 t2 s) (snd e))) (tasks s) =
        filter (\<lambda>e. is_terminal (deref s (snd e))) (tasks s)"
    by (rule filter_cong) (use w in \<open>auto simp: admit_fresh [OF fresh] deref_def wf_def nth_append\<close>)
  then show ?thesis
    unfolding terminal_count_entries
    by (simp add: admit_fresh [OF fresh, THEN arg_cong, of tasks] deref_admit_new is_terminal_def)
qed

text \<open>
  Claim C6, as amended. \<open>cleanupOldTasks\<close> runs only inside an accepted \<open>delegate\<close>,
  and its cap is the constant 100. Right after every accepted delegation, in any run:
  the number of completed, failed and cancelled records is the smaller of 100 and
  what it was before the cleanup, so at most 100, and nothing is evicted when it was
  at most 100; the objects are untouched and the map only loses entries; no entry
  whose record is pending or in progress is lost; and every evicted entry has an
  \<open>updatedAt\<close> no later than that of every terminal entry that is kept. The instance:
  after 101 delegations, each cancelled before the next, the map holds 101 cancelled
  records, and one more delegation brings them to exactly 100.
\<close>

theorem retention_after_admission:
  assumes acc: "int (getActiveTaskCount (run c evs)) < maxConcurrentTasks (config (run c evs))"
  shows "let s2 = admit a ctx (generateTaskId uuid) now t1 t2 (run c evs);
             s3 = snd (delegate a ctx uuid now t1 t2 (run c evs))
         in terminal_count s3 = min 100 (terminal_count s2)
          \<and> objects s3 = objects s2
          \<and> set (tasks s3) \<subseteq> set (tasks s2)
          \<and> (\<forall>e \<in> set (tasks s2). \<not> is_terminal (deref s2 (snd e)) \<longrightarrow> e \<in> set (tasks s3))
          \<and> (\<forall>e \<in> set (tasks s2). e \<notin> set (tasks s3) \<longrightarrow>
               (\<forall>e' \<in> set (tasks s3). is_terminal (deref s2 (snd e')) \<longrightarrow>
                  updatedAt (deref s2 (snd e)) \<le> updatedAt (deref s2 (snd e'))))"
proof -
  define s2 where "s2 = admit a ctx (generateTaskId uuid) now t1 t2 (run c evs)"
  have w: "wf s2" unfolding s2_def by (rule wf_admit) (rule wf_run)
  have d: "snd (delegate a ctx uuid now t1 t2 (run c evs)) = cleanupOldTasks s2"
    using acc by (simp add: delegate_def Let_def s2_def)
  show ?thesis
    unfolding Let_def s2_def [symmetric] d
    using cleanup_retention [OF w] by blast
qed

theorem retention_after_admission_witness:
  "terminal_count (run no_overrides (cancelled_delegations 101)) = 101
   \<and> terminal_count
       (snd (delegate ''job'' None ''v'' 200 200 200 (run no_overrides (cancelled_delegations 101))))
     = 100"
proof -
  have h: "int (getActiveTaskCount (run no_overrides (cancelled_delegations 101)))
             < maxConcurrentTasks (config (run no_overrides (cancelled_delegations 101)))"
    by (simp add: cancelled_delegations_active config_run config_no_overrides)
  have "terminal_count (admit ''job'' None (generateTaskId ''v'') 200 200 200
          (run no_overrides (cancelled_delegations 101))) = 101"
    by (simp add: terminal_count_admit_fresh wf_run cancelled_delegations_fresh
        cancelled_delegations_terminal)
  then show ?thesis
    using retention_after_admission [OF h, of "''job''" None "''v''" 200 200 200]
    by (simp add: Let_def cancelled_delegations_terminal)
qed

text \<open>
  Claim C6, as stated, fails between delegations: the records that finish or are
  cancelled after the last cleanup stay until the next accepted delegation. After 101
  delegations, each cancelled before the next, the map holds 101 cancelled records.
\<close>

theorem retention_between_admissions_counterexample:
  "\<not> terminal_count (run no_overrides (cancelled_delegations 101)) \<le> 100"
  by (simp add: cancelled_delegations_terminal)

end
